theory Spec2Isabelle
  imports
    Main
    "HOL-Library.Word"
    "HOL-Library.Char_ord"
    "HOL-Library.List_Lexorder"
    "HOL-Library.AList"
    "HOL-Library.Monad_Syntax"
begin

unbundle bit_operations_syntax

type_synonym u64 = "64 word"
type_synonym u8 = "8 word"

section \<open>Tokenizer (native/chunker/src/tokenizer.cpp)\<close>

text \<open>
  A \<^typ>\<open>string\<close> is the byte sequence of a \<open>std::string\<close>; \<^term>\<open>length\<close> is
  \<open>size()\<close>. The character classes are those of \<open>\<cctype>\<close> in the "C" locale, read
  off the byte value.
\<close>

datatype CharCategory = WHITESPACE | LETTER | DIGIT | PUNCTUATION | NEWLINE | OTHER

definition byte_val :: "char \<Rightarrow> nat" where
  "byte_val c = of_char c"

definition isspace :: "char \<Rightarrow> bool" where
  "isspace c = ((9 \<le> byte_val c \<and> byte_val c \<le> 13) \<or> byte_val c = 32)"

definition isalpha :: "char \<Rightarrow> bool" where
  "isalpha c = ((65 \<le> byte_val c \<and> byte_val c \<le> 90) \<or> (97 \<le> byte_val c \<and> byte_val c \<le> 122))"

definition isdigit :: "char \<Rightarrow> bool" where
  "isdigit c = (48 \<le> byte_val c \<and> byte_val c \<le> 57)"

definition ispunct :: "char \<Rightarrow> bool" where
  "ispunct c = ((33 \<le> byte_val c \<and> byte_val c \<le> 47) \<or> (58 \<le> byte_val c \<and> byte_val c \<le> 64)
     \<or> (91 \<le> byte_val c \<and> byte_val c \<le> 96) \<or> (123 \<le> byte_val c \<and> byte_val c \<le> 126))"

definition categorize :: "char \<Rightarrow> CharCategory" where
  "categorize c =
     (if c = CHR 0x0A \<or> c = CHR 0x0D then NEWLINE
      else if isspace c then WHITESPACE
      else if isalpha c \<or> c = CHR ''_'' \<or> 128 \<le> byte_val c then LETTER
      else if isdigit c then DIGIT
      else if ispunct c then PUNCTUATION
      else OTHER)"

text \<open>The inner loop conditions of the three kinds of run.\<close>

definition is_whitespace :: "char \<Rightarrow> bool" where
  "is_whitespace c = (categorize c = WHITESPACE)"

definition is_word_char :: "char \<Rightarrow> bool" where
  "is_word_char c = (categorize c = LETTER \<or> categorize c = DIGIT)"

text \<open>The number run of \<open>estimate_tokens\<close> also takes the hexadecimal letters.\<close>

definition is_number_char :: "char \<Rightarrow> bool" where
  "is_number_char c =
     (isdigit c \<or> c = CHR ''.'' \<or> c = CHR ''e'' \<or> c = CHR ''E'' \<or> c = CHR ''+'' \<or> c = CHR ''-''
      \<or> c = CHR ''x'' \<or> c = CHR ''X''
      \<or> (97 \<le> byte_val c \<and> byte_val c \<le> 102) \<or> (65 \<le> byte_val c \<and> byte_val c \<le> 70))"

text \<open>The number run of \<open>find_boundary\<close> does not.\<close>

definition is_number_char_fb :: "char \<Rightarrow> bool" where
  "is_number_char_fb c =
     (isdigit c \<or> c = CHR ''.'' \<or> c = CHR ''e'' \<or> c = CHR ''E'' \<or> c = CHR ''+'' \<or> c = CHR ''-''
      \<or> c = CHR ''x'' \<or> c = CHR ''X'')"

text \<open>The two-character operators recognised by \<open>estimate_tokens\<close> ...\<close>

definition is_operator :: "char \<Rightarrow> char \<Rightarrow> bool" where
  "is_operator c nxt =
     ((c = CHR ''='' \<and> nxt = CHR ''='') \<or> (c = CHR ''!'' \<and> nxt = CHR ''='')
      \<or> (c = CHR ''<'' \<and> nxt = CHR ''='') \<or> (c = CHR ''>'' \<and> nxt = CHR ''='')
      \<or> (c = CHR ''&'' \<and> nxt = CHR ''&'') \<or> (c = CHR ''|'' \<and> nxt = CHR ''|'')
      \<or> (c = CHR ''='' \<and> nxt = CHR ''>'') \<or> (c = CHR ''-'' \<and> nxt = CHR ''>'')
      \<or> (c = CHR '':'' \<and> nxt = CHR '':'') \<or> (c = CHR ''+'' \<and> nxt = CHR ''+'')
      \<or> (c = CHR ''-'' \<and> nxt = CHR ''-'') \<or> (c = CHR ''+'' \<and> nxt = CHR ''='')
      \<or> (c = CHR ''-'' \<and> nxt = CHR ''='') \<or> (c = CHR ''*'' \<and> nxt = CHR ''='')
      \<or> (c = CHR ''/'' \<and> nxt = CHR ''=''))"

text \<open>... and the shorter list of \<open>find_boundary\<close>.\<close>

definition is_operator_fb :: "char \<Rightarrow> char \<Rightarrow> bool" where
  "is_operator_fb c nxt =
     ((c = CHR ''='' \<and> nxt = CHR ''='') \<or> (c = CHR ''!'' \<and> nxt = CHR ''='')
      \<or> (c = CHR ''<'' \<and> nxt = CHR ''='') \<or> (c = CHR ''>'' \<and> nxt = CHR ''='')
      \<or> (c = CHR ''&'' \<and> nxt = CHR ''&'') \<or> (c = CHR ''|'' \<and> nxt = CHR ''|'')
      \<or> (c = CHR ''='' \<and> nxt = CHR ''>'') \<or> (c = CHR ''-'' \<and> nxt = CHR ''>'')
      \<or> (c = CHR '':'' \<and> nxt = CHR '':''))"

text \<open>
  Bytes taken by a punctuation token: the character itself, the second character of a
  two-character operator, and one \<open>=\<close> after that.
\<close>

fun punct_len :: "(char \<Rightarrow> char \<Rightarrow> bool) \<Rightarrow> char \<Rightarrow> string \<Rightarrow> nat" where
  "punct_len oper c [] = 1"
| "punct_len oper c (nxt # rest) =
     (if oper c nxt then (case rest of [] \<Rightarrow> 2 | d # _ \<Rightarrow> if d = CHR ''='' then 3 else 2)
      else 1)"

text \<open>
  Tokens of a word of \<open>word_len\<close> bytes; \<open>ceil(word_len / 4.0)\<close> is the integer ceiling.
\<close>

definition word_tokens :: "nat \<Rightarrow> nat" where
  "word_tokens word_len =
     (if word_len \<le> 4 then 1 else if word_len \<le> 8 then 2 else if word_len \<le> 12 then 3
      else (word_len + 3) div 4)"

definition number_tokens :: "nat \<Rightarrow> nat" where
  "number_tokens num_len = (num_len + 2) div 3"

text \<open>
  One pass through the \<open>switch\<close> of the scanning loop, on the text from index \<open>i\<close> on:
  the number of bytes by which \<open>i\<close> advances and the number of tokens added.
  The two loops differ in the number run and in the operator list only.
\<close>

definition scan_run ::
  "(char \<Rightarrow> bool) \<Rightarrow> (char \<Rightarrow> char \<Rightarrow> bool) \<Rightarrow> string \<Rightarrow> nat \<times> nat" where
  "scan_run numc oper text =
     (case text of
        [] \<Rightarrow> (0, 0)
      | c # cs \<Rightarrow>
          (case categorize c of
             WHITESPACE \<Rightarrow> (length (takeWhile is_whitespace text), 1)
           | NEWLINE \<Rightarrow> (1, 1)
           | LETTER \<Rightarrow>
               (let word_len = length (takeWhile is_word_char text)
                in (word_len, word_tokens word_len))
           | DIGIT \<Rightarrow>
               (let num_len = length (takeWhile numc text)
                in (num_len, number_tokens num_len))
           | PUNCTUATION \<Rightarrow> (punct_len oper c cs, 1)
           | OTHER \<Rightarrow> (1, 1)))"

definition estimate_run :: "string \<Rightarrow> nat \<times> nat" where
  "estimate_run = scan_run is_number_char is_operator"

definition boundary_run :: "string \<Rightarrow> nat \<times> nat" where
  "boundary_run = scan_run is_number_char_fb is_operator_fb"

lemma categorize_DIGIT: "categorize c = DIGIT \<Longrightarrow> isdigit c"
  by (simp add: categorize_def split: if_splits)

lemma scan_run_pos:
  assumes "s \<noteq> []" and "\<And>c. isdigit c \<Longrightarrow> numc c"
  shows "0 < fst (scan_run numc oper s)"
proof -
  from assms(1) obtain c cs where t: "s = c # cs" by (cases s) auto
  show ?thesis
  proof (cases "categorize c")
    case PUNCTUATION
    then show ?thesis by (cases cs) (simp_all add: scan_run_def t split: list.splits)
  next
    case DIGIT
    then have "numc c" using assms(2) categorize_DIGIT by blast
    with DIGIT show ?thesis by (simp add: scan_run_def t Let_def)
  qed (simp_all add: scan_run_def t Let_def is_whitespace_def is_word_char_def)
qed

lemma estimate_run_pos: "s \<noteq> [] \<Longrightarrow> 0 < fst (estimate_run s)"
  unfolding estimate_run_def by (rule scan_run_pos) (simp_all add: is_number_char_def)

lemma boundary_run_pos: "s \<noteq> [] \<Longrightarrow> 0 < fst (boundary_run s)"
  unfolding boundary_run_def by (rule scan_run_pos) (simp_all add: is_number_char_fb_def)

lemma estimate_run_shorter:
  "s \<noteq> [] \<Longrightarrow> (n, t) = estimate_run s \<Longrightarrow> length (drop n s) < length s"
  using estimate_run_pos [of s] by (cases s) (auto simp: fst_def split: prod.splits)

lemma boundary_run_shorter:
  "s \<noteq> [] \<Longrightarrow> (n, t) = boundary_run s \<Longrightarrow> length (drop n s) < length s"
  using boundary_run_pos [of s] by (cases s) (auto simp: fst_def split: prod.splits)

text \<open>
  \<open>estimate_tokens\<close>: the \<open>while (i < len)\<close> loop, on the text that remains from \<open>i\<close>.
  The counter is kept as a natural number here; \<open>count_tokens\<close> below reduces it to the
  \<open>uint32_t\<close> of the source.
\<close>

function estimate_loop :: "string \<Rightarrow> nat" where
  "estimate_loop text =
     (if text = [] then 0
      else (case estimate_run text of (n, t) \<Rightarrow> t + estimate_loop (drop n text)))"
  by pat_completeness auto
termination
  by (relation "measure length") (auto dest: estimate_run_shorter)

declare estimate_loop.simps [simp del]

definition estimate_tokens :: "string \<Rightarrow> nat" where
  "estimate_tokens text = (if text = [] then 0 else estimate_loop text)"

definition count_tokens :: "string \<Rightarrow> 32 word" where
  "count_tokens text = word_of_nat (estimate_tokens text)"

text \<open>
  \<open>find_boundary\<close>: the loop \<open>while (i < len && token_count < target_tokens)\<close> with its
  state \<open>i\<close>, \<open>token_count\<close> and \<open>last_good_pos\<close>; \<open>rest\<close> is the text from \<open>i\<close> on.
\<close>

function find_boundary_loop :: "string \<Rightarrow> nat \<Rightarrow> nat \<Rightarrow> nat \<Rightarrow> nat \<Rightarrow> nat" where
  "find_boundary_loop rest i token_count last_good_pos target_tokens =
     (if rest \<noteq> [] \<and> token_count < target_tokens
      then (case boundary_run rest of
              (n, t) \<Rightarrow> find_boundary_loop (drop n rest) (i + n) (token_count + t) i target_tokens)
      else last_good_pos)"
  by pat_completeness auto
termination
  by (relation "measure (\<lambda>(rest, i, token_count, last_good_pos, target_tokens). length rest)")
    (auto dest: boundary_run_shorter)

declare find_boundary_loop.simps [simp del]

definition find_boundary :: "string \<Rightarrow> 32 word \<Rightarrow> nat" where
  "find_boundary text target_tokens =
     (if text = [] \<or> target_tokens = 0 then 0
      else find_boundary_loop text 0 0 0 (unat target_tokens))"

definition find_token_boundary :: "string \<Rightarrow> 32 word \<Rightarrow> nat" where
  "find_token_boundary text target_tokens = find_boundary text target_tokens"


text \<open>
  A text split into \<open>a\<close> and \<open>b\<close> at whitespace: the last byte of \<open>a\<close> or the first
  byte of \<open>b\<close> is a whitespace byte (\<open>isspace\<close>: blank, tab, newline, ...).
\<close>

definition split_at_space :: "string \<Rightarrow> string \<Rightarrow> bool" where
  "split_at_space a b = ((a \<noteq> [] \<and> isspace (last a)) \<or> (b \<noteq> [] \<and> isspace (hd b)))"

text \<open>
  The one token that is shared when a whitespace run of \<open>a\<close> continues into \<open>b\<close>.
\<close>

definition overlap :: "string \<Rightarrow> string \<Rightarrow> nat" where
  "overlap a b = (if a \<noteq> [] \<and> is_whitespace (last a) \<and> b \<noteq> [] \<and> is_whitespace (hd b) then 1 else 0)"

section \<open>Properties of the tokenizer\<close>

lemmas char_class_defs =
  categorize_def isspace_def isalpha_def isdigit_def ispunct_def byte_val_def
  is_whitespace_def is_word_char_def is_number_char_def is_number_char_fb_def
  is_operator_def is_operator_fb_def

lemmas tokenizer_eval =
  estimate_tokens_def estimate_loop.simps estimate_run_def
  find_token_boundary_def find_boundary_def find_boundary_loop.simps boundary_run_def
  scan_run_def word_tokens_def number_tokens_def char_class_defs

text \<open>
  Claim C8, first half as the spec states it: \<open>count_tokens("hello == world")\<close> is 5.
  The code counts a word of five to eight bytes as two tokens, so the count is 7.
\<close>

theorem count_tokens_hello_world_not_5:
  "\<not> (count_tokens ''hello == world'' = 5
      \<and> find_token_boundary ''hello == world'' 3 = 5)"
  by (simp add: count_tokens_def tokenizer_eval)

text \<open>
  Claim C8, amended: \<open>count_tokens("hello == world")\<close> is 7 (the words \<open>hello\<close> and
  \<open>world\<close> count two tokens each, the two blanks and the operator \<open>==\<close> one each), and
  \<open>find_token_boundary("hello == world", 3)\<close> is 5, the offset of the blank after
  \<open>hello\<close>.
\<close>

theorem count_tokens_hello_world:
  "count_tokens ''hello == world'' = 7
   \<and> estimate_tokens ''hello'' = 2 \<and> estimate_tokens '' '' = 1
   \<and> estimate_tokens ''=='' = 1 \<and> estimate_tokens ''world'' = 2
   \<and> find_token_boundary ''hello == world'' 3 = 5
   \<and> ''hello == world'' ! 5 = CHR '' ''"
  by (simp add: count_tokens_def tokenizer_eval)

text \<open>
  Claim C2 says that \<open>find_token_boundary(s, count_tokens(s))\<close> is \<open>s.size\<close>. In the
  code \<open>last_good_pos\<close> is assigned the index \<open>i\<close> before each run is scanned and never
  after it, so the value returned is the offset at which the last scanned run starts. For
  the one-byte text \<open>a\<close>, which is one token, the result is 0 and not 1.
\<close>

theorem find_token_boundary_single_letter:
  "count_tokens ''a'' = 1 \<and> find_token_boundary ''a'' (count_tokens ''a'') = 0
   \<and> length ''a'' = 1"
  by (simp add: count_tokens_def tokenizer_eval)


subsection \<open>Token counts across a whitespace split\<close>

lemma byte_val_eq_iff: "byte_val c = byte_val d \<longleftrightarrow> c = d"
  by (simp add: byte_val_def)

lemma isspace_categorize:
  "isspace c \<longleftrightarrow> categorize c = WHITESPACE \<or> categorize c = NEWLINE"
  by (auto simp: categorize_def isspace_def byte_val_def)

lemma is_whitespace_isspace: "is_whitespace c \<Longrightarrow> isspace c"
  by (simp add: isspace_categorize is_whitespace_def)

lemma isspace_not_word: "isspace c \<Longrightarrow> \<not> is_word_char c"
  by (auto simp: isspace_categorize is_word_char_def)

lemma isspace_not_number: "isspace c \<Longrightarrow> \<not> is_number_char c"
  by (auto simp: is_number_char_def isspace_def isdigit_def byte_val_def)

lemma isspace_not_equals: "isspace c \<Longrightarrow> c \<noteq> CHR ''=''"
  by (auto simp: isspace_def byte_val_def)

lemma not_isspace_equals [simp]: "\<not> isspace CHR ''=''"
  by (simp add: isspace_def byte_val_def)

lemma isspace_not_operator: "isspace c \<Longrightarrow> \<not> is_operator d c"
  by (auto simp: is_operator_def isspace_def byte_val_def)

lemma takeWhile_append_length:
  assumes "\<not> (\<forall>x\<in>set a. P x) \<or> b = [] \<or> \<not> P (hd b)"
  shows "length (takeWhile P (a @ b)) = length (takeWhile P a)"
proof (cases "\<forall>x\<in>set a. P x")
  case True
  with assms have "takeWhile P b = []" by (cases b) auto
  with True show ?thesis by (simp add: takeWhile_append2 takeWhile_eq_all_conv [THEN iffD2])
next
  case False
  then show ?thesis by (auto simp: takeWhile_append1)
qed



lemma punct_len_append:
  assumes "b = [] \<or> isspace (hd b) \<or> (cs \<noteq> [] \<and> isspace (last cs))"
  shows "punct_len is_operator c (cs @ b) = punct_len is_operator c cs"
proof (cases cs)
  case Nil
  with assms show ?thesis by (cases b) (auto simp: isspace_not_operator)
next
  case (Cons n rest)
  show ?thesis
  proof (cases rest)
    case Nil
    with Cons assms show ?thesis
      by (cases b) (auto simp: isspace_not_operator isspace_not_equals)
  next
    case (Cons d rest')
    with \<open>cs = n # rest\<close> show ?thesis by simp
  qed
qed

lemma estimate_run_append:
  assumes "a \<noteq> []"
    and "b = [] \<or> isspace (hd b) \<or> isspace (last a)"
    and "\<not> (\<forall>x\<in>set a. is_whitespace x) \<or> b = [] \<or> \<not> is_whitespace (hd b)"
  shows "estimate_run (a @ b) = estimate_run a"
proof -
  from assms(1) obtain c cs where a: "a = c # cs" by (cases a) auto
  have last_in: "last a \<in> set a" using assms(1) by simp
  show ?thesis
  proof (cases "categorize c")
    case WHITESPACE
    have "length (takeWhile is_whitespace (a @ b)) = length (takeWhile is_whitespace a)"
      using assms(3) by (rule takeWhile_append_length)
    with WHITESPACE show ?thesis by (simp add: estimate_run_def scan_run_def a)
  next
    case LETTER
    have "\<not> (\<forall>x\<in>set a. is_word_char x) \<or> b = [] \<or> \<not> is_word_char (hd b)"
      using assms(2) last_in isspace_not_word by blast
    then have "length (takeWhile is_word_char (a @ b)) = length (takeWhile is_word_char a)"
      by (rule takeWhile_append_length)
    with LETTER show ?thesis by (simp add: estimate_run_def scan_run_def a)
  next
    case DIGIT
    have "\<not> (\<forall>x\<in>set a. is_number_char x) \<or> b = [] \<or> \<not> is_number_char (hd b)"
      using assms(2) last_in isspace_not_number by blast
    then have "length (takeWhile is_number_char (a @ b)) = length (takeWhile is_number_char a)"
      by (rule takeWhile_append_length)
    with DIGIT show ?thesis by (simp add: estimate_run_def scan_run_def a)
  next
    case PUNCTUATION
    then have "\<not> isspace c" by (simp add: isspace_categorize)
    with assms(2) have "b = [] \<or> isspace (hd b) \<or> (cs \<noteq> [] \<and> isspace (last cs))"
      by (auto simp: a split: if_splits)
    then have "punct_len is_operator c (cs @ b) = punct_len is_operator c cs"
      by (rule punct_len_append)
    with PUNCTUATION show ?thesis by (simp add: estimate_run_def scan_run_def a)
  next
    case NEWLINE
    then show ?thesis by (simp add: estimate_run_def scan_run_def a)
  next
    case OTHER
    then show ?thesis by (simp add: estimate_run_def scan_run_def a)
  qed
qed

lemma punct_len_le: "punct_len oper c cs \<le> Suc (length cs)"
  by (cases cs) (auto split: list.splits)

lemma scan_run_le: "fst (scan_run numc oper s) \<le> length s"
proof (cases s)
  case Nil
  then show ?thesis by (simp add: scan_run_def)
next
  case (Cons c cs)
  have "length (takeWhile P (c # cs)) \<le> Suc (length cs)" for P
    using length_takeWhile_le [of P "c # cs"] by simp
  then show ?thesis
    using punct_len_le [of oper c cs]
    by (cases "categorize c") (simp_all add: scan_run_def Cons Let_def)
qed

lemma estimate_run_le: "fst (estimate_run s) \<le> length s"
  unfolding estimate_run_def by (rule scan_run_le)

text \<open>A run that reaches a trailing blank is a whitespace run.\<close>

lemma takeWhile_whole:
  assumes "length s \<le> length (takeWhile P s)"
  shows "takeWhile P s = s"
  using assms length_takeWhile_le [of P s] by (metis le_antisym takeWhile_eq_take take_all)

lemma estimate_run_whole:
  assumes "length (c # cs) \<le> fst (estimate_run (c # cs))" and "is_whitespace (last (c # cs))"
  shows "\<forall>x\<in>set (c # cs). is_whitespace x"
proof -
  have sp: "isspace (last (c # cs))" using assms(2) by (rule is_whitespace_isspace)
  have last_in: "last (c # cs) \<in> set (c # cs)" by (rule last_in_set) simp
  have whole: "P (last (c # cs))" if "length (c # cs) \<le> length (takeWhile P (c # cs))" for P
  proof -
    from that have "takeWhile P (c # cs) = c # cs" by (rule takeWhile_whole)
    then show ?thesis using last_in by (metis set_takeWhileD)
  qed
  show ?thesis
  proof (cases "categorize c")
    case WHITESPACE
    with assms(1) have "length (c # cs) \<le> length (takeWhile is_whitespace (c # cs))"
      by (simp add: estimate_run_def scan_run_def del: takeWhile.simps)
    then have "takeWhile is_whitespace (c # cs) = c # cs" by (rule takeWhile_whole)
    then show ?thesis by (simp only: takeWhile_eq_all_conv)
  next
    case LETTER
    with assms(1) have "length (c # cs) \<le> length (takeWhile is_word_char (c # cs))"
      by (simp add: estimate_run_def scan_run_def Let_def del: takeWhile.simps)
    then have "is_word_char (last (c # cs))" by (rule whole)
    with sp show ?thesis by (simp add: isspace_not_word)
  next
    case DIGIT
    with assms(1) have "length (c # cs) \<le> length (takeWhile is_number_char (c # cs))"
      by (simp add: estimate_run_def scan_run_def Let_def del: takeWhile.simps)
    then have "is_number_char (last (c # cs))" by (rule whole)
    with sp show ?thesis by (simp add: isspace_not_number)
  next
    case PUNCTUATION
    then have c: "\<not> isspace c" by (simp add: isspace_categorize)
    from PUNCTUATION assms(1) have len: "Suc (length cs) \<le> punct_len is_operator c cs"
      by (simp add: estimate_run_def scan_run_def)
    show ?thesis
    proof (cases cs)
      case Nil
      with sp c show ?thesis by simp
    next
      case (Cons n rest)
      with len sp show ?thesis
        by (cases rest) (auto simp: isspace_not_operator split: if_splits list.splits)
    qed
  next
    case NEWLINE
    with assms(1) have "cs = []" by (simp add: estimate_run_def scan_run_def)
    with NEWLINE assms(2) show ?thesis by (simp add: is_whitespace_def)
  next
    case OTHER
    with assms(1) have "cs = []" by (simp add: estimate_run_def scan_run_def)
    with OTHER assms(2) show ?thesis by (simp add: is_whitespace_def)
  qed
qed


lemma estimate_loop_Nil [simp]: "estimate_loop [] = 0"
  by (simp add: estimate_loop.simps)

lemma estimate_loop_run:
  "s \<noteq> [] \<Longrightarrow> estimate_run s = (n, t) \<Longrightarrow> estimate_loop s = t + estimate_loop (drop n s)"
  by (subst estimate_loop.simps) simp

lemma estimate_run_whitespace:
  "is_whitespace c \<Longrightarrow> estimate_run (c # cs) = (length (takeWhile is_whitespace (c # cs)), 1)"
  by (simp add: estimate_run_def scan_run_def is_whitespace_def)

lemma estimate_loop_whitespace:
  assumes "is_whitespace c"
  shows "estimate_loop (c # cs) = 1 + estimate_loop (dropWhile is_whitespace cs)"
proof -
  have "estimate_loop (c # cs)
      = 1 + estimate_loop (drop (length (takeWhile is_whitespace (c # cs))) (c # cs))"
    using estimate_run_whitespace [OF assms] by (rule estimate_loop_run [rotated]) simp
  also have "drop (length (takeWhile is_whitespace (c # cs))) (c # cs) = dropWhile is_whitespace (c # cs)"
    by (simp only: dropWhile_eq_drop)
  finally show ?thesis using assms by simp
qed


lemma estimate_loop_append:
  "a \<noteq> [] \<Longrightarrow> b = [] \<or> isspace (hd b) \<or> isspace (last a) \<Longrightarrow>
   estimate_loop (a @ b) + overlap a b = estimate_loop a + estimate_loop b"
proof (induction a rule: length_induct)
  case (1 a)
  from \<open>a \<noteq> []\<close> obtain c cs where a: "a = c # cs" by (cases a) auto
  obtain n t where run: "estimate_run a = (n, t)" by (cases "estimate_run a")
  have n_pos: "0 < n" using estimate_run_pos [OF \<open>a \<noteq> []\<close>] run by simp
  have n_le: "n \<le> length a" using estimate_run_le [of a] run by simp
  show ?case
  proof (cases "(\<forall>x\<in>set a. is_whitespace x) \<and> b \<noteq> [] \<and> is_whitespace (hd b)")
    case True
    then obtain d ds where b: "b = d # ds" and d: "is_whitespace d" by (cases b) auto
    from True have c: "is_whitespace c" and cs: "\<forall>x\<in>set cs. is_whitespace x" by (simp_all add: a)
    have "is_whitespace (last a)" using True \<open>a \<noteq> []\<close> last_in_set by blast
    then have ov: "overlap a b = 1" using \<open>a \<noteq> []\<close> d by (simp add: overlap_def b)
    have "dropWhile is_whitespace (cs @ b) = dropWhile is_whitespace ds"
      using cs d by (simp add: dropWhile_append2 b)
    then have ab: "estimate_loop (a @ b) = 1 + estimate_loop (dropWhile is_whitespace ds)"
      using estimate_loop_whitespace [OF c, of "cs @ b"] by (simp add: a)
    have dw: "dropWhile is_whitespace cs = []" using cs by simp
    have ea: "estimate_loop a = 1"
      unfolding a estimate_loop_whitespace [OF c, of cs] dw by simp
    have eb: "estimate_loop b = 1 + estimate_loop (dropWhile is_whitespace ds)"
      using estimate_loop_whitespace [OF d, of ds] by (simp add: b)
    show ?thesis by (simp add: ab ea eb ov)
  next
    case False
    then have "estimate_run (a @ b) = estimate_run a"
      using "1.prems" by (intro estimate_run_append) auto
    then have "estimate_loop (a @ b) = t + estimate_loop (drop n (a @ b))"
      using run \<open>a \<noteq> []\<close> by (intro estimate_loop_run) auto
    then have ab: "estimate_loop (a @ b) = t + estimate_loop (drop n a @ b)"
      using n_le by simp
    have ea: "estimate_loop a = t + estimate_loop (drop n a)"
      using run \<open>a \<noteq> []\<close> by (rule estimate_loop_run [rotated])
    show ?thesis
    proof (cases "drop n a = []")
      case True
      then have "length (c # cs) \<le> fst (estimate_run (c # cs))" using run by (simp add: a)
      then have "\<forall>x\<in>set a. is_whitespace x" if "is_whitespace (last a)"
        unfolding a using that [unfolded a] by (rule estimate_run_whole)
      with False have "overlap a b = 0" by (auto simp: overlap_def)
      with True show ?thesis by (simp add: ab ea)
    next
      case nonempty: False
      then have lt: "n < length a" by simp
      then have last: "last (drop n a) = last a" by (simp add: last_drop)
      have "length (drop n a) < length a" using n_pos \<open>a \<noteq> []\<close> by simp
      moreover have "b = [] \<or> isspace (hd b) \<or> isspace (last (drop n a))"
        using "1.prems"(2) last by simp
      ultimately have "estimate_loop (drop n a @ b) + overlap (drop n a) b
          = estimate_loop (drop n a) + estimate_loop b"
        using "1.IH" nonempty by blast
      moreover have "overlap (drop n a) b = overlap a b"
        using nonempty \<open>a \<noteq> []\<close> last by (simp add: overlap_def)
      ultimately show ?thesis by (simp add: ab ea)
    qed
  qed
qed

lemma scan_run_tokens_le:
  assumes "s \<noteq> []" and "\<And>c. isdigit c \<Longrightarrow> numc c"
  shows "snd (scan_run numc oper s) \<le> fst (scan_run numc oper s)"
proof -
  from assms(1) obtain c cs where s: "s = c # cs" by (cases s) auto
  have pos: "0 < fst (scan_run numc oper s)" using assms by (rule scan_run_pos)
  have w: "word_tokens k \<le> k" if "0 < k" for k using that by (auto simp: word_tokens_def)
  have m: "number_tokens k \<le> k" if "0 < k" for k using that by (auto simp: number_tokens_def)
  show ?thesis
  proof (cases "categorize c")
    case LETTER
    with pos show ?thesis by (simp add: scan_run_def s Let_def w del: takeWhile.simps)
  next
    case DIGIT
    with pos show ?thesis by (simp add: scan_run_def s Let_def m del: takeWhile.simps)
  next
    case WHITESPACE
    with pos show ?thesis by (auto simp: scan_run_def s Suc_le_eq simp del: takeWhile.simps)
  qed (use pos in \<open>simp_all add: scan_run_def s del: takeWhile.simps\<close>)
qed

lemma estimate_loop_le_length: "estimate_loop s \<le> length s"
proof (induction s rule: length_induct)
  case (1 s)
  show ?case
  proof (cases "s = []")
    case True
    then show ?thesis by simp
  next
    case False
    obtain n t where run: "estimate_run s = (n, t)" by (cases "estimate_run s")
    have "0 < n" using estimate_run_pos [OF False] run by simp
    moreover have "n \<le> length s" using estimate_run_le [of s] run by simp
    moreover have "t \<le> n"
      using scan_run_tokens_le [of s is_number_char is_operator] False run
      by (simp add: estimate_run_def is_number_char_def)
    moreover have "length (drop n s) < length s" using False \<open>0 < n\<close> by simp
    then have "estimate_loop (drop n s) \<le> length (drop n s)"
      using "1.IH" by blast
    ultimately show ?thesis
      using estimate_loop_run [OF False run] by simp
  qed
qed

lemma estimate_tokens_le_length: "estimate_tokens s \<le> length s"
  by (simp add: estimate_tokens_def estimate_loop_le_length)

lemma uint_count_tokens:
  "length s < 2 ^ 32 \<Longrightarrow> uint (count_tokens s) = int (estimate_tokens s)"
  using estimate_tokens_le_length [of s]
  by (simp add: count_tokens_def uint_nat unat_of_nat)

text \<open>
  A text of \<open>n\<close> newlines counts \<open>n\<close> tokens, reduced to 32 bits by the \<open>uint32_t\<close>
  counter.
\<close>

lemma estimate_loop_newlines: "estimate_loop (replicate n (CHR 0x0A)) = n"
proof (induction n)
  case 0
  show ?case by (simp add: estimate_loop.simps)
next
  case (Suc n)
  have "estimate_run (CHR 0x0A # replicate n (CHR 0x0A)) = (1, 1)"
    by (simp add: estimate_run_def scan_run_def categorize_def)
  then show ?case using Suc by (simp add: estimate_loop.simps [of "CHR 0x0A # replicate n (CHR 0x0A)"])
qed

lemma count_tokens_newlines: "count_tokens (replicate n (CHR 0x0A)) = word_of_nat n"
  by (simp add: count_tokens_def estimate_tokens_def estimate_loop_newlines)

text \<open>
  Claim C7 as stated, for all strings \<open>a\<close> and \<open>b\<close> split at whitespace: with \<open>a\<close> of
  \<open>2^32 - 1\<close> newlines and \<open>b\<close> of one newline, \<open>count_tokens(a)\<close> is \<open>0xFFFFFFFF\<close>,
  \<open>count_tokens(b)\<close> is 1 and the counter of \<open>count_tokens(a ++ b)\<close> wraps to 0, which
  is below \<open>count_tokens(a) + count_tokens(b) - 1\<close>.
\<close>

theorem count_tokens_wraps:
  "split_at_space (replicate 4294967295 (CHR 0x0A)) [CHR 0x0A]
   \<and> count_tokens (replicate 4294967295 (CHR 0x0A)) = 0xFFFFFFFF
   \<and> count_tokens [CHR 0x0A] = 1
   \<and> count_tokens (replicate 4294967295 (CHR 0x0A) @ [CHR 0x0A]) = 0
   \<and> \<not> (uint (count_tokens (replicate 4294967295 (CHR 0x0A))) + uint (count_tokens [CHR 0x0A]) - 1
          \<le> uint (count_tokens (replicate 4294967295 (CHR 0x0A) @ [CHR 0x0A])))"
proof -
  have a: "count_tokens (replicate 4294967295 (CHR 0x0A)) = 0xFFFFFFFF"
    by (simp only: count_tokens_newlines) simp
  have b: "count_tokens [CHR 0x0A] = 1"
    using count_tokens_newlines [of 1] by simp
  have "replicate 4294967295 (CHR 0x0A) @ [CHR 0x0A] = replicate (Suc 4294967295) (CHR 0x0A)"
    by (simp only: replicate_append_same replicate_Suc)
  then have c: "count_tokens (replicate 4294967295 (CHR 0x0A) @ [CHR 0x0A]) = 0"
    by (simp only: count_tokens_newlines) simp
  have s: "split_at_space (replicate 4294967295 (CHR 0x0A)) [CHR 0x0A]"
    by (simp add: split_at_space_def isspace_def byte_val_def)
  show ?thesis by (simp only: a b c s) simp
qed

text \<open>
  Claim C7, amended: when the split point of \<open>a ++ b\<close> falls at whitespace and the two
  texts together are below \<open>2^32\<close> bytes (so that the \<open>uint32_t\<close> counter cannot wrap),
  \<open>count_tokens(a) + count_tokens(b) - 1 \<le> count_tokens(a ++ b) \<le>
  count_tokens(a) + count_tokens(b) + 1\<close>, the counts being the \<open>uint32_t\<close> results
  read as integers.
\<close>

theorem count_tokens_near_additive:
  assumes "split_at_space a b" and "length a + length b < 2 ^ 32"
  shows "uint (count_tokens a) + uint (count_tokens b) - 1 \<le> uint (count_tokens (a @ b))
     \<and> uint (count_tokens (a @ b)) \<le> uint (count_tokens a) + uint (count_tokens b) + 1"
proof -
  have est: "estimate_tokens s = estimate_loop s" for s by (simp add: estimate_tokens_def)
  have "estimate_loop (a @ b) + overlap a b = estimate_loop a + estimate_loop b"
  proof (cases "a = []")
    case True
    then show ?thesis by (simp add: overlap_def)
  next
    case False
    then show ?thesis using assms(1) by (intro estimate_loop_append) (auto simp: split_at_space_def)
  qed
  moreover have "overlap a b \<le> 1" by (simp add: overlap_def)
  ultimately have "estimate_tokens a + estimate_tokens b \<le> estimate_tokens (a @ b) + 1
      \<and> estimate_tokens (a @ b) \<le> estimate_tokens a + estimate_tokens b"
    by (simp add: est)
  moreover have "uint (count_tokens a) = int (estimate_tokens a)"
    and "uint (count_tokens b) = int (estimate_tokens b)"
    and "uint (count_tokens (a @ b)) = int (estimate_tokens (a @ b))"
    using assms(2) by (simp_all add: uint_count_tokens)
  ultimately show ?thesis by simp
qed

theorem count_tokens_near_additive_witness:
  "split_at_space ''x  '' '' y'' \<and> length ''x  '' + length '' y'' < (2::nat) ^ 32
   \<and> uint (count_tokens ''x  '') + uint (count_tokens '' y'') - 1
       \<le> uint (count_tokens (''x  '' @ '' y''))
   \<and> uint (count_tokens (''x  '' @ '' y''))
       \<le> uint (count_tokens ''x  '') + uint (count_tokens '' y'') + 1"
proof -
  have h1: "split_at_space ''x  '' '' y''"
    by (simp add: split_at_space_def isspace_def byte_val_def)
  have h2: "length ''x  '' + length '' y'' < (2::nat) ^ 32" by simp
  show ?thesis using h1 h2 count_tokens_near_additive [OF h1 h2] by simp
qed

text \<open>
  Away from whitespace the bound does not hold: a digit followed by letters \<open>e\<close> is
  one number run of \<open>estimate_tokens\<close>, counted in thirds, where the letters alone are
  a word, counted in quarters.
\<close>

lemma estimate_tokens_number_run:
  "estimate_tokens ''1'' = 1 \<and> estimate_tokens ''eeeeeeeeeeeeeeeeeeeeeeee'' = 6
   \<and> estimate_tokens (''1'' @ ''eeeeeeeeeeeeeeeeeeeeeeee'') = 9"
  by (simp add: tokenizer_eval)



section \<open>Indexer: diff of two scans (native/indexer/src/indexer.cpp)\<close>

text \<open>
  \<open>language\<close> is an \<open>enum class Language : uint8_t\<close> (\<open>UNKNOWN = 0\<close>, ...), kept by its
  underlying byte: \<open>FileIndex::load\<close> casts any byte of the file to it.
\<close>

record FileEntry =
  path :: string
  content_hash :: "64 word"
  size_bytes :: "64 word"
  mtime :: "64 word"
  language :: "8 word"
  is_indexed :: bool

datatype ChangeType = ADDED | MODIFIED | DELETED | RENAMED

record FileChange =
  change_type :: ChangeType
  change_path :: string
  old_path :: string
  old_hash :: "64 word"
  new_hash :: "64 word"

record DiffResult =
  changes :: "FileChange list"
  added_count :: "32 word"
  modified_count :: "32 word"
  deleted_count :: "32 word"
  renamed_count :: "32 word"

text \<open>
  \<open>std::unordered_map\<close> as an association list with distinct keys. The C++ container
  is walked in an order that the language leaves unspecified; the list here is in the
  order in which the keys were first inserted, which is one order among those the
  container may have. So the position of a record among the records that come from
  other keys of the same loop is not meaningful here, and the statements about \<open>diff\<close>
  below do not speak of it: they are about the records of one content hash (a filter of
  the result), about the Renamed block as a whole against the rest, about the set of
  records, or about an empty result.
\<close>

text \<open>
  \<open>old_hashes\<close> and \<open>new_hashes\<close> of \<open>detect_renames\<close>: for every non-zero content
  hash the paths that carry it, in the order of the file list
  (\<open>old_hashes[entry.content_hash].push_back(entry.path)\<close>).
\<close>

definition hash_index :: "FileEntry list \<Rightarrow> (64 word \<times> string list) list" where
  "hash_index files =
     fold (\<lambda>entry m. if content_hash entry \<noteq> 0
                        then map_default (content_hash entry) [path entry] (\<lambda>ps. ps @ [path entry]) m
                        else m)
       files []"

definition rename_change :: "string \<Rightarrow> string \<Rightarrow> 64 word \<Rightarrow> FileChange" where
  "rename_change old_p new_p h =
     \<lparr>change_type = RENAMED, change_path = new_p, old_path = old_p, old_hash = h, new_hash = h\<rparr>"

definition detect_renames :: "FileEntry list \<Rightarrow> FileEntry list \<Rightarrow> FileChange list" where
  "detect_renames old_files new_files =
     (let old_hashes = hash_index old_files;
          new_hashes = hash_index new_files;
          old_paths = set (map path old_files);
          new_paths = set (map path new_files)
      in concat (map (\<lambda>(h, old_file_paths).
           case map_of new_hashes h of
             None \<Rightarrow> []
           | Some new_file_paths \<Rightarrow>
               concat (map (\<lambda>old_p.
                 if old_p \<in> new_paths then []
                 else concat (map (\<lambda>new_p.
                   if new_p \<in> old_paths then [] else [rename_change old_p new_p h])
                   new_file_paths))
                 old_file_paths))
         old_hashes))"

text \<open>
  \<open>old_files\<close> and \<open>new_files\<close> of \<open>diff\<close>: \<open>old_files[entry.path] = &entry\<close> for
  every entry, so the last entry of a path stays.
\<close>

definition path_index :: "FileEntry list \<Rightarrow> (string \<times> FileEntry) list" where
  "path_index files = fold (\<lambda>entry m. AList.update (path entry) entry m) files []"

text \<open>
  The three loops of \<open>diff\<close> as folds over the result. \<open>diff_time_ms\<close> is wall-clock
  time and \<open>error\<close> is never assigned; both are left out of \<open>DiffResult\<close>.
\<close>

definition push_change :: "FileChange \<Rightarrow> DiffResult \<Rightarrow> DiffResult" where
  "push_change c r = r\<lparr>changes := changes r @ [c]\<rparr>"

definition add_rename :: "FileChange \<Rightarrow> DiffResult \<Rightarrow> DiffResult" where
  "add_rename rn r = (push_change rn r)\<lparr>renamed_count := renamed_count r + 1\<rparr>"

definition added_or_modified ::
  "(string \<times> FileEntry) list \<Rightarrow> string set \<Rightarrow> string \<times> FileEntry \<Rightarrow> DiffResult \<Rightarrow> DiffResult" where
  "added_or_modified old_files renamed_new_paths = (\<lambda>(p, new_entry) r.
     if p \<in> renamed_new_paths then r
     else (case map_of old_files p of
             None \<Rightarrow>
               (push_change \<lparr>change_type = ADDED, change_path = p, old_path = [], old_hash = 0,
                              new_hash = content_hash new_entry\<rparr> r)
               \<lparr>added_count := added_count r + 1\<rparr>
           | Some old_entry \<Rightarrow>
               if content_hash old_entry \<noteq> content_hash new_entry
               then (push_change \<lparr>change_type = MODIFIED, change_path = p, old_path = [],
                                   old_hash = content_hash old_entry,
                                   new_hash = content_hash new_entry\<rparr> r)
                    \<lparr>modified_count := modified_count r + 1\<rparr>
               else r))"

definition deleted ::
  "(string \<times> FileEntry) list \<Rightarrow> string set \<Rightarrow> string \<times> FileEntry \<Rightarrow> DiffResult \<Rightarrow> DiffResult" where
  "deleted new_files renamed_old_paths = (\<lambda>(p, old_entry) r.
     if p \<in> renamed_old_paths then r
     else (case map_of new_files p of
             None \<Rightarrow>
               (push_change \<lparr>change_type = DELETED, change_path = p, old_path = [],
                              old_hash = content_hash old_entry, new_hash = 0\<rparr> r)
               \<lparr>deleted_count := deleted_count r + 1\<rparr>
           | Some _ \<Rightarrow> r))"

definition diff :: "bool \<Rightarrow> FileEntry list \<Rightarrow> FileEntry list \<Rightarrow> DiffResult" where
  "diff config_detect_renames old_scan new_scan =
     (let result = \<lparr>changes = [], added_count = 0, modified_count = 0, deleted_count = 0,
                     renamed_count = 0\<rparr>;
          old_files = path_index old_scan;
          new_files = path_index new_scan;
          renames = (if config_detect_renames then detect_renames old_scan new_scan else []);
          renamed_old_paths = set (map old_path renames);
          renamed_new_paths = set (map change_path renames);
          result = fold add_rename renames result;
          result = fold (added_or_modified old_files renamed_new_paths) new_files result;
          result = fold (deleted new_files renamed_old_paths) old_files result
      in result)"

text \<open>A file entry with a path and a content hash, for the concrete scans below.\<close>

definition file_entry :: "string \<Rightarrow> 64 word \<Rightarrow> FileEntry" where
  "file_entry p h = \<lparr>path = p, content_hash = h, size_bytes = 0, mtime = 0, language = 0,
               is_indexed = False\<rparr>"


text \<open>What \<open>hash_index\<close> holds under a hash, and one step of its loop.\<close>

definition hash_bucket :: "FileEntry list \<Rightarrow> 64 word \<Rightarrow> string list" where
  "hash_bucket files h =
     (if h = 0 then [] else map path (filter (\<lambda>entry. content_hash entry = h) files))"

definition hash_step :: "FileEntry \<Rightarrow> (64 word \<times> string list) list \<Rightarrow> (64 word \<times> string list) list" where
  "hash_step entry m =
     (if content_hash entry \<noteq> 0
      then map_default (content_hash entry) [path entry] (\<lambda>ps. ps @ [path entry]) m
      else m)"

text \<open>
  The paths of one hash that are only in the old scan, those only in the new scan, and
  all pairs of them, the old path varying slowest.
\<close>

definition old_only :: "FileEntry list \<Rightarrow> FileEntry list \<Rightarrow> 64 word \<Rightarrow> string list" where
  "old_only old_files new_files h =
     filter (\<lambda>p. p \<notin> set (map path new_files)) (hash_bucket old_files h)"

definition new_only :: "FileEntry list \<Rightarrow> FileEntry list \<Rightarrow> 64 word \<Rightarrow> string list" where
  "new_only old_files new_files h =
     filter (\<lambda>p. p \<notin> set (map path old_files)) (hash_bucket new_files h)"

definition rename_pairs :: "FileEntry list \<Rightarrow> FileEntry list \<Rightarrow> 64 word \<Rightarrow> FileChange list" where
  "rename_pairs old_files new_files h =
     concat (map (\<lambda>old_p. map (\<lambda>new_p. rename_change old_p new_p h)
                                (new_only old_files new_files h))
               (old_only old_files new_files h))"

section \<open>Properties of the diff\<close>

lemma hash_index_fold: "hash_index files = fold hash_step files []"
  by (simp add: hash_index_def hash_step_def [abs_def])

lemma distinct_hash_step: "distinct (map fst m) \<Longrightarrow> distinct (map fst (hash_step entry m))"
  by (simp add: hash_step_def distinct_map_default)

lemma distinct_fold_hash_step:
  "distinct (map fst m) \<Longrightarrow> distinct (map fst (fold hash_step files m))"
  by (induction files arbitrary: m) (simp_all add: distinct_hash_step)

lemma distinct_hash_index: "distinct (map fst (hash_index files))"
  by (simp add: hash_index_fold distinct_fold_hash_step)

lemma map_of_hash_step:
  "map_of (hash_step entry m) h =
     (if content_hash entry \<noteq> 0 \<and> content_hash entry = h
      then Some (case map_of m h of None \<Rightarrow> [path entry] | Some ps \<Rightarrow> ps @ [path entry])
      else map_of m h)"
  by (simp add: hash_step_def map_of_map_default split: option.splits)

lemma map_of_fold_hash_step:
  "map_of (fold hash_step files m) h =
     (case map_of m h of
        None \<Rightarrow> if hash_bucket files h = [] then None else Some (hash_bucket files h)
      | Some ps \<Rightarrow> Some (ps @ hash_bucket files h))"
proof (induction files arbitrary: m)
  case Nil
  then show ?case by (simp add: hash_bucket_def split: option.splits)
next
  case (Cons entry files)
  have "map_of (fold hash_step (entry # files) m) h
      = (case map_of (hash_step entry m) h of
           None \<Rightarrow> if hash_bucket files h = [] then None else Some (hash_bucket files h)
         | Some ps \<Rightarrow> Some (ps @ hash_bucket files h))"
    by (simp add: Cons.IH)
  then show ?case
    by (auto simp: map_of_hash_step hash_bucket_def split: option.splits)
qed

lemma map_of_hash_index:
  "map_of (hash_index files) h =
     (if hash_bucket files h = [] then None else Some (hash_bucket files h))"
  by (simp add: hash_index_fold map_of_fold_hash_step)

lemma hash_index_bucket:
  "(h, ps) \<in> set (hash_index files) \<longleftrightarrow> ps = hash_bucket files h \<and> ps \<noteq> []"
proof -
  have "(h, ps) \<in> set (hash_index files) \<longleftrightarrow> map_of (hash_index files) h = Some ps"
    using distinct_hash_index [of files] by simp
  then show ?thesis by (auto simp: map_of_hash_index)
qed

lemma hash_bucket_paths: "set (hash_bucket files h) \<subseteq> set (map path files)"
  by (auto simp: hash_bucket_def)

lemma detect_renames_same [simp]: "detect_renames files files = []"
proof -
  have "old_p \<in> set (map path files)" if "(h, ps) \<in> set (hash_index files)" "old_p \<in> set ps"
    for h ps old_p
    using that hash_bucket_paths [of files h] by (auto simp: hash_index_bucket)
  then show ?thesis
    by (auto simp: detect_renames_def Let_def split: option.splits)
qed

lemma distinct_fold_update:
  "distinct (map fst m) \<Longrightarrow> distinct (map fst (fold (\<lambda>entry. AList.update (path entry) entry) files m))"
  by (induction files arbitrary: m) (simp_all add: distinct_update)

lemma distinct_path_index: "distinct (map fst (path_index files))"
  by (simp add: path_index_def distinct_fold_update)

lemma keys_fold_update:
  "fst ` set (fold (\<lambda>entry. AList.update (path entry) entry) files m) = fst ` set m \<union> path ` set files"
  by (induction files arbitrary: m) (auto simp: dom_update)

lemma keys_path_index: "fst ` set (path_index files) = path ` set files"
  by (simp add: path_index_def keys_fold_update)

lemma fold_unchanged: "(\<And>x. x \<in> set xs \<Longrightarrow> f x r = r) \<Longrightarrow> fold f xs r = r"
  by (induction xs) simp_all

lemma concat_map_unless:
  "concat (map (\<lambda>x. if x \<in> A then [] else F x) xs) = concat (map F (filter (\<lambda>x. x \<notin> A) xs))"
  by (induction xs) simp_all

lemma concat_map_single_unless:
  "concat (map (\<lambda>x. if x \<in> A then [] else [f x]) xs) = map f (filter (\<lambda>x. x \<notin> A) xs)"
  by (induction xs) simp_all

lemma detect_renames_bucket:
  assumes "(h, ps) \<in> set (hash_index old_files)"
  shows "(case map_of (hash_index new_files) h of
            None \<Rightarrow> []
          | Some new_file_paths \<Rightarrow>
              concat (map (\<lambda>old_p.
                if old_p \<in> set (map path new_files) then []
                else concat (map (\<lambda>new_p.
                  if new_p \<in> set (map path old_files) then [] else [rename_change old_p new_p h])
                  new_file_paths))
                ps))
         = rename_pairs old_files new_files h"
proof -
  from assms have ps: "ps = hash_bucket old_files h" by (simp add: hash_index_bucket)
  show ?thesis
  proof (cases "hash_bucket new_files h = []")
    case True
    then show ?thesis by (simp add: map_of_hash_index rename_pairs_def new_only_def)
  next
    case False
    then show ?thesis
      by (simp add: map_of_hash_index rename_pairs_def new_only_def old_only_def ps
          concat_map_unless concat_map_single_unless)
  qed
qed

lemma detect_renames_pairs:
  "detect_renames old_files new_files
     = concat (map (rename_pairs old_files new_files) (map fst (hash_index old_files)))"
  unfolding detect_renames_def Let_def
  apply (rule arg_cong [where f = concat])
  apply (simp only: map_map comp_def)
  apply (rule map_cong [OF refl])
  apply (clarsimp simp del: set_map simp add: detect_renames_bucket)
  done

lemma concat_map_only:
  "distinct ks \<Longrightarrow>
   concat (map (\<lambda>k. if k = h then v else []) ks) = (if h \<in> set ks then v else [])"
  by (induction ks) auto

lemma filter_rename_pairs:
  "filter (\<lambda>c. old_hash c = h) (rename_pairs old_files new_files k)
     = (if k = h then rename_pairs old_files new_files h else [])"
  by (auto simp: rename_pairs_def rename_change_def filter_concat comp_def filter_empty_conv)

lemma hash_index_keys: "h \<in> set (map fst (hash_index files)) \<longleftrightarrow> hash_bucket files h \<noteq> []"
proof -
  have "h \<in> set (map fst (hash_index files)) \<longleftrightarrow> (\<exists>ps. (h, ps) \<in> set (hash_index files))"
    by force
  then show ?thesis by (simp add: hash_index_bucket)
qed

lemma detect_renames_filter_hash:
  "filter (\<lambda>c. old_hash c = h) (detect_renames old_files new_files)
     = rename_pairs old_files new_files h"
proof -
  have "filter (\<lambda>c. old_hash c = h) (detect_renames old_files new_files)
      = concat (map (\<lambda>k. if k = h then rename_pairs old_files new_files h else [])
                 (map fst (hash_index old_files)))"
    by (simp add: detect_renames_pairs filter_concat comp_def filter_rename_pairs)
  also have "\<dots> = (if h \<in> set (map fst (hash_index old_files))
                   then rename_pairs old_files new_files h else [])"
    using distinct_hash_index by (rule concat_map_only)
  also have "\<dots> = rename_pairs old_files new_files h"
    by (simp only: hash_index_keys) (simp add: rename_pairs_def old_only_def)
  finally show ?thesis .
qed

lemma detect_renames_member:
  assumes "c \<in> set (detect_renames old_files new_files)"
  shows "change_type c = RENAMED \<and> old_path c \<in> path ` set old_files
     \<and> old_path c \<notin> path ` set new_files \<and> change_path c \<in> path ` set new_files
     \<and> change_path c \<notin> path ` set old_files"
proof -
  from assms obtain h where "c \<in> set (rename_pairs old_files new_files h)"
    by (auto simp: detect_renames_pairs)
  then show ?thesis
    using hash_bucket_paths [of old_files h] hash_bucket_paths [of new_files h]
    by (auto simp: rename_pairs_def old_only_def new_only_def rename_change_def)
qed

lemma changes_fold_add_rename: "changes (fold add_rename rs r) = changes r @ rs"
  by (induction rs arbitrary: r) (simp_all add: add_rename_def push_change_def)

lemma changes_fold_added_or_modified:
  "\<exists>ext. changes (fold (added_or_modified old_m rn) xs r) = changes r @ ext
     \<and> (\<forall>c\<in>set ext. change_type c \<noteq> RENAMED \<and> change_path c \<in> fst ` set xs \<and> change_path c \<notin> rn)"
proof (induction xs arbitrary: r)
  case Nil
  then show ?case by simp
next
  case (Cons x xs)
  obtain p e where x: "x = (p, e)" by (cases x)
  let ?r = "added_or_modified old_m rn x r"
  have step: "\<exists>e1. changes ?r = changes r @ e1
     \<and> (\<forall>c\<in>set e1. change_type c \<noteq> RENAMED \<and> change_path c = p \<and> change_path c \<notin> rn)"
    by (auto simp: added_or_modified_def push_change_def x split: option.splits)
  then obtain e1 where e1: "changes ?r = changes r @ e1"
    "\<forall>c\<in>set e1. change_type c \<noteq> RENAMED \<and> change_path c = p \<and> change_path c \<notin> rn" by blast
  from Cons.IH [of ?r] obtain e2 where e2: "changes (fold (added_or_modified old_m rn) xs ?r) = changes ?r @ e2"
    "\<forall>c\<in>set e2. change_type c \<noteq> RENAMED \<and> change_path c \<in> fst ` set xs \<and> change_path c \<notin> rn" by blast
  have "changes (fold (added_or_modified old_m rn) (x # xs) r) = changes r @ (e1 @ e2)"
    using e1(1) e2(1) by simp
  moreover have "\<forall>c\<in>set (e1 @ e2). change_type c \<noteq> RENAMED
      \<and> change_path c \<in> fst ` set (x # xs) \<and> change_path c \<notin> rn"
    using e1(2) e2(2) by (auto simp: x)
  ultimately show ?case by blast
qed

lemma changes_fold_deleted:
  "\<exists>ext. changes (fold (deleted new_m ro) xs r) = changes r @ ext
     \<and> (\<forall>c\<in>set ext. change_type c \<noteq> RENAMED \<and> change_path c \<in> fst ` set xs \<and> change_path c \<notin> ro)"
proof (induction xs arbitrary: r)
  case Nil
  then show ?case by simp
next
  case (Cons x xs)
  obtain p e where x: "x = (p, e)" by (cases x)
  let ?r = "deleted new_m ro x r"
  have step: "\<exists>e1. changes ?r = changes r @ e1
     \<and> (\<forall>c\<in>set e1. change_type c \<noteq> RENAMED \<and> change_path c = p \<and> change_path c \<notin> ro)"
    by (auto simp: deleted_def push_change_def x split: option.splits)
  then obtain e1 where e1: "changes ?r = changes r @ e1"
    "\<forall>c\<in>set e1. change_type c \<noteq> RENAMED \<and> change_path c = p \<and> change_path c \<notin> ro" by blast
  from Cons.IH [of ?r] obtain e2 where e2: "changes (fold (deleted new_m ro) xs ?r) = changes ?r @ e2"
    "\<forall>c\<in>set e2. change_type c \<noteq> RENAMED \<and> change_path c \<in> fst ` set xs \<and> change_path c \<notin> ro" by blast
  have "changes (fold (deleted new_m ro) (x # xs) r) = changes r @ (e1 @ e2)"
    using e1(1) e2(1) by simp
  moreover have "\<forall>c\<in>set (e1 @ e2). change_type c \<noteq> RENAMED
      \<and> change_path c \<in> fst ` set (x # xs) \<and> change_path c \<notin> ro"
    using e1(2) e2(2) by (auto simp: x)
  ultimately show ?case by blast
qed

lemmas diff_eval =
  diff_def detect_renames_def hash_index_def path_index_def file_entry_def
  rename_change_def add_rename_def push_change_def added_or_modified_def deleted_def
  old_only_def new_only_def hash_bucket_def

text \<open>
  Claim C10: the diff of a scan against itself has no change of any kind, with rename
  detection on or off.
\<close>

theorem diff_same_scan:
  "diff config_detect_renames files files =
     \<lparr>changes = [], added_count = 0, modified_count = 0, deleted_count = 0, renamed_count = 0\<rparr>"
proof -
  let ?m = "path_index files"
  let ?r = "\<lparr>changes = [], added_count = 0, modified_count = 0, deleted_count = 0,
              renamed_count = 0\<rparr>"
  have same: "map_of ?m p = Some e" if "(p, e) \<in> set ?m" for p e
    using that distinct_path_index [of files] by simp
  have "fold (added_or_modified ?m {}) ?m ?r = ?r"
    by (rule fold_unchanged) (auto simp: added_or_modified_def same)
  moreover have "fold (deleted ?m {}) ?m ?r = ?r"
    by (rule fold_unchanged) (auto simp: deleted_def same)
  ultimately show ?thesis by (simp add: diff_def)
qed

text \<open>
  Claim C1 as stated: no old path and no new path is in more than one Renamed record.
  One old file whose content appears under two new paths is paired with both.
\<close>

theorem diff_rename_not_one_to_one:
  "\<not> distinct (map old_path (filter (\<lambda>c. change_type c = RENAMED)
       (changes (diff True [file_entry ''a'' 5] [file_entry ''b'' 5, file_entry ''c'' 5]))))"
  by (simp add: diff_def detect_renames_def hash_index_def path_index_def file_entry_def
      rename_change_def add_rename_def push_change_def added_or_modified_def deleted_def)

text \<open>
  Claim C1, amended: with \<open>detect_renames\<close> on, the Renamed records of one content hash
  are all pairs of a path that is only in the old scan with a path that is only in the
  new scan, both carrying that hash, in the order of the two file lists (so a path is in
  as many records as the other side has paths); the Renamed records come first in the
  result, and no record after them is a Renamed one or has the old or new path of a
  Renamed record as its path. Nothing is said of the order in which the records of
  different hashes follow each other, nor of the order of the later records among
  themselves.
\<close>

theorem diff_rename_pairing:
  "filter (\<lambda>c. old_hash c = h) (detect_renames old_files new_files)
     = concat (map (\<lambda>old_p. map (\<lambda>new_p. rename_change old_p new_p h)
                                (new_only old_files new_files h))
                 (old_only old_files new_files h))
   \<and> take (length (detect_renames old_files new_files)) (changes (diff True old_files new_files))
     = detect_renames old_files new_files
   \<and> (\<forall>c \<in> set (drop (length (detect_renames old_files new_files))
                        (changes (diff True old_files new_files))).
        change_type c \<noteq> RENAMED
        \<and> change_path c \<notin> old_path ` set (detect_renames old_files new_files)
        \<and> change_path c \<notin> change_path ` set (detect_renames old_files new_files))"
proof -
  let ?rs = "detect_renames old_files new_files"
  let ?ro = "set (map old_path ?rs)" and ?rn = "set (map change_path ?rs)"
  let ?r0 = "\<lparr>changes = [], added_count = 0, modified_count = 0, deleted_count = 0,
               renamed_count = 0\<rparr>"
  let ?r1 = "fold add_rename ?rs ?r0"
  let ?r2 = "fold (added_or_modified (path_index old_files) ?rn) (path_index new_files) ?r1"
  let ?r3 = "fold (deleted (path_index new_files) ?ro) (path_index old_files) ?r2"
  have d: "diff True old_files new_files = ?r3" by (simp add: diff_def Let_def)
  have c1: "changes ?r1 = ?rs" by (simp add: changes_fold_add_rename)
  obtain e1 where e1: "changes ?r2 = changes ?r1 @ e1"
    "\<forall>c\<in>set e1. change_type c \<noteq> RENAMED \<and> change_path c \<in> fst ` set (path_index new_files)
        \<and> change_path c \<notin> ?rn"
    using changes_fold_added_or_modified [of "path_index old_files" ?rn "path_index new_files" ?r1]
    by blast
  obtain e2 where e2: "changes ?r3 = changes ?r2 @ e2"
    "\<forall>c\<in>set e2. change_type c \<noteq> RENAMED \<and> change_path c \<in> fst ` set (path_index old_files)
        \<and> change_path c \<notin> ?ro"
    using changes_fold_deleted [of "path_index new_files" ?ro "path_index old_files" ?r2]
    by blast
  have all: "changes (diff True old_files new_files) = ?rs @ e1 @ e2"
    by (simp only: d e2(1) e1(1) c1 append_assoc)
  have ro: "p \<notin> path ` set new_files" if "p \<in> ?ro" for p
    using that detect_renames_member [of _ old_files new_files] by auto
  have rn: "p \<notin> path ` set old_files" if "p \<in> ?rn" for p
    using that detect_renames_member [of _ old_files new_files] by auto
  have "\<forall>c\<in>set (e1 @ e2). change_type c \<noteq> RENAMED \<and> change_path c \<notin> ?ro \<and> change_path c \<notin> ?rn"
  proof
    fix c
    assume "c \<in> set (e1 @ e2)"
    then consider "c \<in> set e1" | "c \<in> set e2" by auto
    then show "change_type c \<noteq> RENAMED \<and> change_path c \<notin> ?ro \<and> change_path c \<notin> ?rn"
    proof cases
      case 1
      with e1(2) have "change_type c \<noteq> RENAMED" and "change_path c \<in> path ` set new_files"
        and "change_path c \<notin> ?rn"
        by (simp_all add: keys_path_index del: set_map)
      with ro show ?thesis by blast
    next
      case 2
      with e2(2) have "change_type c \<noteq> RENAMED" and "change_path c \<in> path ` set old_files"
        and "change_path c \<notin> ?ro"
        by (simp_all add: keys_path_index del: set_map)
      with rn show ?thesis by blast
    qed
  qed
  then show ?thesis
    by (simp add: all detect_renames_filter_hash rename_pairs_def del: set_map) (simp add: image_iff)
qed

text \<open>
  The theorem at an old scan \<open>a:5, d:4, x:1\<close> and a new scan \<open>b:5, c:5, x:2, e:9\<close>:
  the two Renamed records of hash 5 come first, \<open>a\<close> to \<open>b\<close> before \<open>a\<close> to \<open>c\<close> (one
  bucket, in the order of the new file list); the three records after them are, as a
  set, the modification of \<open>x\<close>, the addition of \<open>e\<close> and the deletion of \<open>d\<close>.
\<close>

theorem diff_rename_pairing_witness:
  "filter (\<lambda>c. old_hash c = 5)
      (detect_renames [file_entry ''a'' 5, file_entry ''d'' 4, file_entry ''x'' 1]
         [file_entry ''b'' 5, file_entry ''c'' 5, file_entry ''x'' 2, file_entry ''e'' 9])
     = [rename_change ''a'' ''b'' 5, rename_change ''a'' ''c'' 5]
   \<and> take 2 (changes (diff True [file_entry ''a'' 5, file_entry ''d'' 4, file_entry ''x'' 1]
         [file_entry ''b'' 5, file_entry ''c'' 5, file_entry ''x'' 2, file_entry ''e'' 9]))
     = [rename_change ''a'' ''b'' 5, rename_change ''a'' ''c'' 5]
   \<and> set (drop 2 (changes (diff True [file_entry ''a'' 5, file_entry ''d'' 4, file_entry ''x'' 1]
         [file_entry ''b'' 5, file_entry ''c'' 5, file_entry ''x'' 2, file_entry ''e'' 9])))
     = {\<lparr>change_type = MODIFIED, change_path = ''x'', old_path = [], old_hash = 1, new_hash = 2\<rparr>,
        \<lparr>change_type = ADDED, change_path = ''e'', old_path = [], old_hash = 0, new_hash = 9\<rparr>,
        \<lparr>change_type = DELETED, change_path = ''d'', old_path = [], old_hash = 4, new_hash = 0\<rparr>}
   \<and> length (changes (diff True [file_entry ''a'' 5, file_entry ''d'' 4, file_entry ''x'' 1]
         [file_entry ''b'' 5, file_entry ''c'' 5, file_entry ''x'' 2, file_entry ''e'' 9])) = 5"
  using diff_rename_pairing [of 5 "[file_entry ''a'' 5, file_entry ''d'' 4, file_entry ''x'' 1]"
      "[file_entry ''b'' 5, file_entry ''c'' 5, file_entry ''x'' 2, file_entry ''e'' 9]"]
  by (simp add: diff_eval insert_commute)

section \<open>File hasher: xxHash64 (native/indexer/src/hasher.cpp)\<close>



text \<open>\<open>memcpy\<close> into an integer, on a little-endian machine.\<close>

fun read_le :: "u8 list \<Rightarrow> 'a::len word" where
  "read_le [] = 0"
| "read_le (b # bs) = ucast b OR push_bit 8 (read_le bs)"

















section \<open>Properties of the hasher\<close>

















section \<open>Merkle tree (native/indexer/src/merkle.cpp)\<close>

definition combine_hashes :: "u64 \<Rightarrow> u64 \<Rightarrow> u64" where
  "combine_hashes h1 h2 = h1 XOR (h2 + 0x9E3779B185EBCA87 + push_bit 6 h1 + drop_bit 2 h1)"

text \<open>
  A node owns its children in a \<open>std::map\<close> keyed by name: an association list in
  ascending key order (\<open>std::string\<close> compares bytes lexicographically).
\<close>

datatype MerkleNode =
  MerkleNode (name: string) (hash: u64) (is_file: bool) (children: "(string \<times> MerkleNode) list")

record MerkleTree =
  root :: MerkleNode
  dirty :: bool

text \<open>\<open>m[k] = v\<close> and \<open>m.erase(k)\<close> on such a map; \<open>m.find(k)\<close> is \<^const>\<open>map_of\<close>.\<close>

fun map_assign :: "string \<Rightarrow> 'a \<Rightarrow> (string \<times> 'a) list \<Rightarrow> (string \<times> 'a) list" where
  "map_assign k v [] = [(k, v)]"
| "map_assign k v ((k', v') # m) =
     (if k < k' then (k, v) # (k', v') # m
      else if k = k' then (k, v) # m
      else (k', v') # map_assign k v m)"

definition map_erase :: "string \<Rightarrow> (string \<times> 'a) list \<Rightarrow> (string \<times> 'a) list" where
  "map_erase k m = filter (\<lambda>kv. fst kv \<noteq> k) m"

text \<open>\<open>split_path\<close>: components between \<open>/\<close> or \<open>\\\<close>, empty ones dropped.\<close>

text \<open>\<open>split_path\<close>: the components between slashes or backslashes, empty ones dropped.\<close>

fun split_loop :: "string \<Rightarrow> string \<Rightarrow> string list" where
  "split_loop [] component = (if component \<noteq> [] then [component] else [])"
| "split_loop (c # cs) component =
     (if c = CHR ''/'' \<or> c = CHR 0x5C
      then (if component \<noteq> [] then component # split_loop cs [] else split_loop cs [])
      else split_loop cs (component @ [c]))"

definition split_path :: "string \<Rightarrow> string list" where
  "split_path p = split_loop p []"

text \<open>
  \<open>add_file\<close>: \<open>get_or_create_node(path, true)\<close> walks the components from the root,
  creating each missing node with hash 0 (a file node if it is the last component), and
  the node reached gets the content hash and \<open>is_file = true\<close>. The pointer walk is a
  recursion that rebuilds the nodes on the way.
\<close>

fun add_at :: "string list \<Rightarrow> u64 \<Rightarrow> MerkleNode \<Rightarrow> MerkleNode" where
  "add_at [] new_hash_value (MerkleNode n h f cs) = MerkleNode n new_hash_value True cs"
| "add_at (part # rest) new_hash_value (MerkleNode n h f cs) =
     (let child = (case map_of cs part of
                     None \<Rightarrow> MerkleNode part 0 (rest = []) []
                   | Some ch \<Rightarrow> ch)
      in MerkleNode n h f (map_assign part (add_at rest new_hash_value child) cs))"

text \<open>
  \<open>remove_node\<close>: nothing for an empty path or a missing parent; otherwise the last
  component is erased from its parent's children.
\<close>

fun remove_node :: "string list \<Rightarrow> MerkleNode \<Rightarrow> MerkleNode" where
  "remove_node [] node = node"
| "remove_node [part] (MerkleNode n h f cs) = MerkleNode n h f (map_erase part cs)"
| "remove_node (part # rest) (MerkleNode n h f cs) =
     (case map_of cs part of
        None \<Rightarrow> MerkleNode n h f cs
      | Some ch \<Rightarrow> MerkleNode n h f (map_assign part (remove_node rest ch) cs))"

text \<open>
  \<open>compute_node_hash\<close> returns the hash and stores it in every directory node it visits:
  the result is the hash and the node as it is afterwards.
\<close>

fun compute_node_hash :: "MerkleNode \<Rightarrow> u64 \<times> MerkleNode" where
  "compute_node_hash (MerkleNode n h f cs) =
     (if f then (h, MerkleNode n h f cs)
      else (let sorted_children = map (\<lambda>kc. (fst kc, compute_node_hash (snd kc))) (sort_key fst cs);
                combined = foldl (\<lambda>combined kc. combine_hashes combined (fst (snd kc))) 0 sorted_children
            in (combined, MerkleNode n combined f (map (\<lambda>kc. (fst kc, snd (snd kc))) sorted_children))))"


text \<open>Little-endian integers of the serialized form (\<open>memcpy\<close> on a little-endian machine).\<close>

definition le32 :: "32 word \<Rightarrow> u8 list" where
  "le32 w = [ucast w, ucast (drop_bit 8 w), ucast (drop_bit 16 w), ucast (drop_bit 24 w)]"

definition le64 :: "u64 \<Rightarrow> u8 list" where
  "le64 w = [ucast w, ucast (drop_bit 8 w), ucast (drop_bit 16 w), ucast (drop_bit 24 w),
             ucast (drop_bit 32 w), ucast (drop_bit 40 w), ucast (drop_bit 48 w),
             ucast (drop_bit 56 w)]"

definition read_u32 :: "u8 list \<Rightarrow> 32 word" where
  "read_u32 data = read_le (take 4 data)"

definition read_u64 :: "u8 list \<Rightarrow> u64" where
  "read_u64 data = read_le (take 8 data)"

fun serialize_node :: "MerkleNode \<Rightarrow> u8 list" where
  "serialize_node (MerkleNode n h f cs) =
     le32 (word_of_nat (length n)) @ map of_char n @ le64 h @ [if f then 1 else 0]
     @ le32 (word_of_nat (length cs))
     @ concat (map (\<lambda>kc. serialize_node (snd kc)) cs)"

definition serialize :: "MerkleTree \<Rightarrow> u8 list" where
  "serialize t = le32 0x4D524B4C @ le32 1 @ serialize_node (root t)"

text \<open>
  The part of \<open>deserialize_node\<close> before its loop: name, hash, file flag and child
  count, each read after its bounds check; \<open>None\<close> is the \<open>nullptr\<close> of a failed check.
\<close>

definition read_header :: "u8 list \<Rightarrow> (string \<times> u64 \<times> bool \<times> nat \<times> u8 list) option" where
  "read_header data =
     (if length data < 4 then None
      else let name_len = unat (read_u32 data); data = drop 4 data in
      if length data < name_len then None
      else let nm = map (\<lambda>b. char_of (unat b)) (take name_len data); data = drop name_len data in
      if length data < 8 then None
      else let h = read_u64 data; data = drop 8 data in
      if length data < 1 then None
      else let f = (hd data \<noteq> 0); data = drop 1 data in
      if length data < 4 then None
      else let child_count = unat (read_u32 data); data = drop 4 data in
      Some (nm, h, f, child_count, data))"

lemma read_header_shorter:
  "read_header data = Some (nm, h, f, child_count, rest) \<Longrightarrow> length rest + 17 \<le> length data"
  by (auto simp: read_header_def Let_def split: if_splits)

text \<open>
  \<open>deserialize_node\<close> and its loop over the children; the pointer \<open>data\<close> that the
  source advances is the rest of the input, returned with the node.
\<close>

function deserialize_node :: "u8 list \<Rightarrow> (MerkleNode \<times> u8 list) option"
  and deserialize_children :: "nat \<Rightarrow> MerkleNode \<Rightarrow> u8 list \<Rightarrow> (MerkleNode \<times> u8 list) option"
where
  "deserialize_node data =
     (case read_header data of
        None \<Rightarrow> None
      | Some (nm, h, f, child_count, rest) \<Rightarrow>
          deserialize_children child_count (MerkleNode nm h f []) rest)"
| "deserialize_children 0 node data = Some (node, data)"
| "deserialize_children (Suc i) node data =
     (case deserialize_node data of
        None \<Rightarrow> None
      | Some (child, rest) \<Rightarrow>
          deserialize_children i
            (MerkleNode (name node) (hash node) (is_file node)
               (map_assign (name child) child (children node)))
            rest)"
  by pat_completeness auto

lemma deserialize_shorter:
  "deserialize_node_deserialize_children_dom (Inl data) \<Longrightarrow>
     deserialize_node data = Some (n, r) \<Longrightarrow> length r \<le> length data"
  "deserialize_node_deserialize_children_dom (Inr (i, node, data)) \<Longrightarrow>
     deserialize_children i node data = Some (n, r) \<Longrightarrow> length r \<le> length data"
proof (induct data and i node data arbitrary: n r and n r
    rule: deserialize_node_deserialize_children.pinduct)
  case (1 data)
  then show ?case
    by (fastforce simp: deserialize_node.psimps dest: read_header_shorter split: option.splits)
next
  case (2 node data)
  then show ?case by (simp add: deserialize_children.psimps)
next
  case (3 i node data)
  then show ?case
    by (fastforce simp: deserialize_children.psimps split: option.splits)
qed

termination deserialize_node
proof (relation "inv_image (less_than <*lex*> less_than)
    (\<lambda>x. case x of Inl data \<Rightarrow> (length data, 0)
                   | Inr (i, node, data) \<Rightarrow> (length data, Suc i))", goal_cases)
  case 1
  show ?case by (intro wf_inv_image wf_lex_prod wf_less_than)
next
  case (2 data x2 nm y h ya f yb child_count rest)
  then have "read_header data = Some (nm, h, f, child_count, rest)" by simp
  then show ?case using read_header_shorter by fastforce
next
  case (3 i node data)
  show ?case by simp
next
  case (4 i node data x2 child rest)
  then have "deserialize_node data = Some (child, rest)" by simp
  with 4 have "length rest \<le> length data" by (intro deserialize_shorter(1))
  then show ?case by (auto simp: le_less)
qed


declare deserialize_node.simps [simp del]

text \<open>
  The tree with its \<open>dirty\<close> flag. \<open>root_hash\<close> is \<open>const\<close> in the source but
  recomputes and clears the flag, so it returns the tree as well.
\<close>

definition new_tree :: MerkleTree where
  "new_tree = \<lparr>root = MerkleNode [] 0 False [], dirty = False\<rparr>"

definition add_file :: "string \<Rightarrow> u64 \<Rightarrow> MerkleTree \<Rightarrow> MerkleTree" where
  "add_file p new_hash_value t = \<lparr>root = add_at (split_path p) new_hash_value (root t), dirty = True\<rparr>"

definition remove_file :: "string \<Rightarrow> MerkleTree \<Rightarrow> MerkleTree" where
  "remove_file p t = \<lparr>root = remove_node (split_path p) (root t), dirty = True\<rparr>"

definition root_hash :: "MerkleTree \<Rightarrow> u64 \<times> MerkleTree" where
  "root_hash t =
     (if dirty t
      then (let r = snd (compute_node_hash (root t)) in (hash r, \<lparr>root = r, dirty = False\<rparr>))
      else (hash (root t), t))"

definition deserialize :: "u8 list \<Rightarrow> MerkleTree \<Rightarrow> bool \<times> MerkleTree" where
  "deserialize data t =
     (if length data < 8 then (False, t)
      else if read_u32 data \<noteq> 0x4D524B4C then (False, t)
      else if read_u32 (drop 4 data) \<noteq> 1 then (False, t)
      else (case deserialize_node (drop 8 data) of
              None \<Rightarrow> (False, t)
            | Some (r, rest) \<Rightarrow> (True, \<lparr>root = r, dirty = False\<rparr>)))"



text \<open>
  The hash cached in the root is not stale: the tree is marked dirty, or a recomputation
  would give the stored value.
\<close>

definition hash_current :: "MerkleTree \<Rightarrow> bool" where
  "hash_current t = (dirty t \<or> hash (root t) = hash (snd (compute_node_hash (root t))))"

section \<open>FileIndex (native/indexer/src/indexer.cpp)\<close>

text \<open>
  The entries (\<open>std::unordered_map\<close> from path to entry, as an association list in
  insertion order) and the owned Merkle tree.
\<close>

record FileIndex =
  entries :: "(string \<times> FileEntry) list"
  merkle :: MerkleTree

definition new_index :: FileIndex where
  "new_index = \<lparr>entries = [], merkle = new_tree\<rparr>"

definition index_add :: "FileEntry \<Rightarrow> FileIndex \<Rightarrow> FileIndex" where
  "index_add entry idx =
     \<lparr>entries = AList.update (path entry) entry (entries idx),
      merkle = add_file (path entry) (content_hash entry) (merkle idx)\<rparr>"

text \<open>
  \<open>file.read(buf, n)\<close> on the rest of the file: \<open>None\<close> when fewer than \<open>n\<close> bytes
  are left, in which case the stream fails and the variable read into is not assigned.
\<close>

definition read_exact :: "nat \<Rightarrow> u8 list \<Rightarrow> (u8 list \<times> u8 list) option" where
  "read_exact n s = (if n \<le> length s then Some (take n s, drop n s) else None)"

definition byte_char :: "u8 \<Rightarrow> char" where
  "byte_char b = char_of (unat b)"

definition read_entry :: "u8 list \<Rightarrow> (FileEntry \<times> u8 list) option" where
  "read_entry s = do {
     (b, s) \<leftarrow> read_exact 4 s;
     (pb, s) \<leftarrow> read_exact (unat (read_le b :: 32 word)) s;
     (hb, s) \<leftarrow> read_exact 8 s;
     (sb, s) \<leftarrow> read_exact 8 s;
     (mb, s) \<leftarrow> read_exact 8 s;
     (lb, s) \<leftarrow> read_exact 1 s;
     (ib, s) \<leftarrow> read_exact 1 s;
     Some (\<lparr>path = map byte_char pb, content_hash = read_le hb, size_bytes = read_le sb,
            mtime = read_le mb, language = hd lb, is_indexed = (hd ib \<noteq> 0)\<rparr>, s)
   }"

fun load_entries ::
  "nat \<Rightarrow> u8 list \<Rightarrow> (string \<times> FileEntry) list \<Rightarrow> (string \<times> FileEntry) list \<times> u8 list option" where
  "load_entries 0 s es = (es, Some s)"
| "load_entries (Suc n) s es =
     (case read_entry s of
        None \<Rightarrow> (es, None)
      | Some (entry, s') \<Rightarrow> load_entries n s' (AList.update (path entry) entry es))"

text \<open>
  \<open>FileIndex::load\<close> on the bytes of an opened file. No read is checked by the source.
  Where a read that came up short leaves an uninitialised variable that the code goes on
  to use, the outcome is \<open>Indeterminate\<close> with the index as it is at that point. The last
  read, of the Merkle blob, fills a zero-initialised vector, and the result of
  \<open>deserialize\<close> is discarded.
\<close>

datatype load_result = Returned bool FileIndex | Indeterminate FileIndex

definition load :: "u8 list \<Rightarrow> FileIndex \<Rightarrow> load_result" where
  "load file_bytes idx =
     (case read_exact 4 file_bytes of
        None \<Rightarrow> Indeterminate idx
      | Some (mb, s) \<Rightarrow>
     (case read_exact 4 s of
        None \<Rightarrow> Indeterminate idx
      | Some (vb, s) \<Rightarrow>
     if read_le mb \<noteq> (0x4649444E :: 32 word) \<or> read_le vb \<noteq> (1 :: 32 word)
     then Returned False idx
     else
     (case read_exact 4 s of
        None \<Rightarrow> Indeterminate (idx\<lparr>entries := []\<rparr>)
      | Some (cb, s) \<Rightarrow>
     (case load_entries (unat (read_le cb :: 32 word)) s [] of
        (es, None) \<Rightarrow> Indeterminate (idx\<lparr>entries := es\<rparr>)
      | (es, Some s) \<Rightarrow>
     (case read_exact 4 s of
        None \<Rightarrow> Indeterminate (idx\<lparr>entries := es\<rparr>)
      | Some (zb, s) \<Rightarrow>
          (let merkle_size = unat (read_le zb :: 32 word);
               merkle_data = take merkle_size s @ replicate (merkle_size - length s) 0
           in Returned True
                \<lparr>entries = es, merkle = snd (deserialize merkle_data (merkle idx))\<rparr>))))))"

section \<open>Properties of the Merkle tree and the index\<close>








lemma deserialize_children_unfold:
  "deserialize_children i node data =
     (if i = 0 then Some (node, data)
      else (case deserialize_node data of
              None \<Rightarrow> None
            | Some (child, rest) \<Rightarrow>
                deserialize_children (i - 1)
                  (MerkleNode (name node) (hash node) (is_file node)
                     (map_assign (name child) child (children node)))
                  rest))"
  by (cases i) (simp_all split: option.splits)

lemma load_entries_unfold:
  "load_entries n s es =
     (if n = 0 then (es, Some s)
      else (case read_entry s of
              None \<Rightarrow> (es, None)
            | Some (entry, s') \<Rightarrow> load_entries (n - 1) s' (AList.update (path entry) entry es)))"
  by (cases n) (simp_all split: option.splits)

lemmas merkle_eval = new_tree_def add_file_def remove_file_def root_hash_def split_path_def
  combine_hashes_def map_erase_def Let_def serialize_def le32_def le64_def deserialize_def
  read_u32_def read_u64_def read_header_def deserialize_node.simps deserialize_children_unfold
  char_of_def bit_0 hash_current_def

lemmas index_eval = new_index_def index_add_def read_exact_def byte_char_def read_entry_def
  load_def load_entries_unfold file_entry_def




text \<open>
  Claim C4 says that \<open>deserialize(serialize(T))\<close> has the root hash of \<open>T\<close>, also when
  \<open>T\<close> has mutations that were not recomputed. \<open>serialize\<close> writes the stored hashes
  as they are and \<open>deserialize\<close> clears the dirty flag: after \<open>add_file("a", 1)\<close> on a
  new tree the round trip succeeds and answers 0, where \<open>T\<close> answers
  \<open>9E3779B185EBCA88\<close>.
\<close>

theorem serialize_dirty_tree:
  "fst (deserialize (serialize (add_file ''a'' 1 new_tree)) new_tree)
   \<and> fst (root_hash (snd (deserialize (serialize (add_file ''a'' 1 new_tree)) new_tree))) = 0
   \<and> fst (root_hash (add_file ''a'' 1 new_tree)) = 0x9E3779B185EBCA88"
  by (simp add: merkle_eval)

text \<open>
  Claim C5 says that \<open>FileIndex::load\<close> fails on a truncated input and leaves the index
  as it was. A file with a good header, no entries and a Merkle blob announced as 8 bytes
  of which 4 are present is loaded into an index that holds the file \<open>a\<close>: the entries
  are cleared before anything is parsed, the failure of \<open>deserialize\<close> on the blob is
  ignored, and \<open>load\<close> returns true.
\<close>

theorem load_truncated_merkle_blob:
  "load (le32 0x4649444E @ le32 1 @ le32 0 @ le32 8 @ [0x4C, 0x4B, 0x52, 0x4D])
        (index_add (file_entry ''a'' 1) new_index)
     = Returned True \<lparr>entries = [], merkle = add_file ''a'' 1 new_tree\<rparr>
   \<and> entries (index_add (file_entry ''a'' 1) new_index) = [(''a'', file_entry ''a'' 1)]"
  by (simp add: index_eval merkle_eval)

text \<open>
  In this run the header is the expected one (neither disjunct of the test on magic
  and version holds), and the outcome is the one that returns true.
\<close>

theorem load_truncated_merkle_blob_witness:
  "read_u32 (le32 0x4649444E @ le32 1 @ le32 0 @ le32 8 @ [0x4C, 0x4B, 0x52, 0x4D]) = 0x4649444E
   \<and> read_u32 (drop 4 (le32 0x4649444E @ le32 1 @ le32 0 @ le32 8 @ [0x4C, 0x4B, 0x52, 0x4D])) = 1
   \<and> (\<exists>idx. load (le32 0x4649444E @ le32 1 @ le32 0 @ le32 8 @ [0x4C, 0x4B, 0x52, 0x4D])
              (index_add (file_entry ''a'' 1) new_index) = Returned True idx
            \<and> entries idx = [])"
  using load_truncated_merkle_blob by (simp add: read_u32_def le32_def)

section \<open>Boundary detector (native/chunker/src/boundaries.cpp)\<close>

text \<open>
  The detectors for JavaScript and TypeScript. \<open>line\<close>, \<open>column\<close> and \<open>byte_offset\<close>
  are \<open>uint32_t\<close> in the source (a cast of \<open>size_t\<close>); they are natural numbers here,
  which is the same for sources below \<open>2^32\<close> bytes. The fields \<open>type\<close> and \<open>name\<close> are
  \<open>boundary_type\<close> and \<open>boundary_name\<close>.
\<close>

datatype ChunkType =
  UNKNOWN | FUNCTION | CLASS | STRUCT | INTERFACE | ENUM | MODULE | IMPORT | EXPORT | COMMENT
  | BLOCK | STATEMENT

record SemanticBoundary =
  line :: nat
  column :: nat
  byte_offset :: nat
  boundary_type :: ChunkType
  boundary_name :: string
  scope_depth :: int
  is_start :: bool

definition offset_to_line_col :: "string \<Rightarrow> nat \<Rightarrow> nat \<times> nat" where
  "offset_to_line_col source offset =
     foldl (\<lambda>(ln, col) c. if c = CHR 0x0A then (ln + 1, 1) else (ln, col + 1)) (1, 1)
       (take offset source)"

definition make_boundary ::
  "string \<Rightarrow> nat \<Rightarrow> ChunkType \<Rightarrow> string \<Rightarrow> int \<Rightarrow> bool \<Rightarrow> SemanticBoundary" where
  "make_boundary source pos t n depth start =
     (case offset_to_line_col source pos of
        (ln, col) \<Rightarrow> \<lparr>line = ln, column = col, byte_offset = pos, boundary_type = t,
                      boundary_name = n, scope_depth = depth, is_start = start\<rparr>)"

text \<open>
  The scanning helpers of \<open>BoundaryDetector::Impl\<close>. Each returns the new position; the
  loops that advance \<open>pos\<close> are a count over the rest of the source.
\<close>

definition skip_whitespace :: "string \<Rightarrow> nat \<Rightarrow> nat" where
  "skip_whitespace source pos = pos + length (takeWhile isspace (drop pos source))"

definition skip_to_eol :: "string \<Rightarrow> nat \<Rightarrow> nat" where
  "skip_to_eol source pos = pos + length (takeWhile (\<lambda>c. c \<noteq> CHR 0x0A) (drop pos source))"

text \<open>
  \<open>skip_string\<close>: after the opening quote, a backslash skips two bytes when another byte
  follows, the closing quote ends the literal, anything else is one byte.
\<close>

fun string_body :: "char \<Rightarrow> string \<Rightarrow> nat" where
  "string_body quote [] = 0"
| "string_body quote [c] = 1"
| "string_body quote (c # d # rest) =
     (if c = CHR 0x5C then 2 + string_body quote rest
      else if c = quote then 1
      else 1 + string_body quote (d # rest))"

definition skip_string :: "string \<Rightarrow> nat \<Rightarrow> char \<Rightarrow> nat" where
  "skip_string source pos quote = pos + 1 + string_body quote (drop (pos + 1) source)"

text \<open>
  \<open>skip_template_string\<close>, with the inner loop over a \<open>${...}\<close> expression that counts
  braces.
\<close>

fun brace_body :: "nat \<Rightarrow> string \<Rightarrow> nat" where
  "brace_body depth [] = 0"
| "brace_body depth (c # cs) =
     (if 0 < depth
      then 1 + brace_body (if c = CHR ''{'' then depth + 1
                           else if c = CHR ''}'' then depth - 1 else depth) cs
      else 0)"

lemma brace_body_le: "brace_body depth s \<le> length s"
  by (induction depth s rule: brace_body.induct) auto

function template_body :: "string \<Rightarrow> nat" where
  "template_body [] = 0"
| "template_body [c] = 1"
| "template_body (c # d # rest) =
     (if c = CHR 0x5C then 2 + template_body rest
      else if c = CHR ''$'' \<and> d = CHR ''{''
      then 2 + brace_body 1 rest + template_body (drop (brace_body 1 rest) rest)
      else if c = CHR 0x60 then 1
      else 1 + template_body (d # rest))"
  by pat_completeness auto
termination template_body
  by (relation "measure length") auto

definition skip_template_string :: "string \<Rightarrow> nat \<Rightarrow> nat" where
  "skip_template_string source pos = pos + 1 + template_body (drop (pos + 1) source)"

text \<open>
  \<open>skip_comment\<close>: a line comment to the end of the line; a block comment to after its
  \<open>*/\<close>, or, when it is not closed, to the last byte of the source.
\<close>

fun block_comment_body :: "string \<Rightarrow> nat" where
  "block_comment_body (c # d # rest) =
     (if c = CHR ''*'' \<and> d = CHR ''/'' then 2 else 1 + block_comment_body (d # rest))"
| "block_comment_body rest = 0"

definition skip_comment :: "string \<Rightarrow> nat \<Rightarrow> nat" where
  "skip_comment source pos =
     (if pos + 1 \<ge> length source then pos
      else if source ! pos = CHR ''/'' \<and> source ! (pos + 1) = CHR ''/'' then skip_to_eol source pos
      else if source ! pos = CHR ''/'' \<and> source ! (pos + 1) = CHR ''*''
      then pos + 2 + block_comment_body (drop (pos + 2) source)
      else if source ! pos = CHR ''#'' then skip_to_eol source pos
      else pos)"

text \<open>
  \<open>std::regex\<close> (ECMAScript grammar) for the patterns the detectors use, with
  \<open>regex_search(..., match_continuous)\<close>: the match starts at the first byte, and the
  alternatives are tried by backtracking in the order of the pattern (greedy quantifiers
  first). \<open>rmatch\<close> lists, in that order, the length and the capture groups of every way
  to match; the first one is the match. \<open>Star\<close> and \<open>Plus\<close> repeat a character class,
  which is all the patterns need; \<open>\s\<close> is \<open>isspace\<close>.
\<close>

datatype rx =
  Lit string | Cls "char \<Rightarrow> bool" | Seq rx rx | Alt rx rx | Opt rx
  | Star "char \<Rightarrow> bool" | Plus "char \<Rightarrow> bool" | Group nat rx

fun rmatch :: "rx \<Rightarrow> string \<Rightarrow> (nat \<times> (nat \<times> string) list) list" where
  "rmatch (Lit l) s = (if take (length l) s = l then [(length l, [])] else [])"
| "rmatch (Cls p) s = (case s of [] \<Rightarrow> [] | c # _ \<Rightarrow> if p c then [(1, [])] else [])"
| "rmatch (Seq a b) s =
     concat (map (\<lambda>(n, ca). map (\<lambda>(m, cb). (n + m, ca @ cb)) (rmatch b (drop n s))) (rmatch a s))"
| "rmatch (Alt a b) s = rmatch a s @ rmatch b s"
| "rmatch (Opt a) s = rmatch a s @ [(0, [])]"
| "rmatch (Star p) s = map (\<lambda>k. (k, [])) (rev [0..<Suc (length (takeWhile p s))])"
| "rmatch (Plus p) s = map (\<lambda>k. (k, [])) (rev [1..<Suc (length (takeWhile p s))])"
| "rmatch (Group i a) s = map (\<lambda>(n, c). (n, (i, take n s) # c)) (rmatch a s)"

definition regex_search :: "rx \<Rightarrow> string \<Rightarrow> (nat \<times> (nat \<times> string) list) option" where
  "regex_search r s = (case rmatch r s of [] \<Rightarrow> None | m # _ \<Rightarrow> Some m)"

definition submatch :: "(nat \<times> string) list \<Rightarrow> nat \<Rightarrow> string" where
  "submatch caps i = (case map_of caps i of None \<Rightarrow> [] | Some s \<Rightarrow> s)"

text \<open>A lower bound of the length of a match, for the termination of the loops.\<close>

fun min_len :: "rx \<Rightarrow> nat" where
  "min_len (Lit l) = length l"
| "min_len (Cls p) = 1"
| "min_len (Seq a b) = min_len a + min_len b"
| "min_len (Alt a b) = min (min_len a) (min_len b)"
| "min_len (Opt a) = 0"
| "min_len (Star p) = 0"
| "min_len (Plus p) = 1"
| "min_len (Group i a) = min_len a"

lemma rmatch_min_len: "(n, c) \<in> set (rmatch r s) \<Longrightarrow> min_len r \<le> n"
proof (induction r arbitrary: n c s)
  case (Seq a b)
  then show ?case by (fastforce simp: add_mono)
next
  case (Alt a b)
  then show ?case by (fastforce simp: min_le_iff_disj)
next
  case (Cls p)
  then show ?case by (auto split: list.splits if_splits)
qed (auto split: if_splits)

lemma regex_search_min_len: "regex_search r s = Some (n, c) \<Longrightarrow> min_len r \<le> n"
  using rmatch_min_len [of n c r s] by (auto simp: regex_search_def split: list.splits)


text \<open>
  The patterns of \<open>detect_javascript\<close> and \<open>detect_typescript\<close>. (\<open>method_regex\<close> and
  \<open>type_regex\<close> are constructed by the source and never used.)
\<close>

definition isalnum :: "char \<Rightarrow> bool" where
  "isalnum c = (isalpha c \<or> isdigit c)"

definition ident_start :: "char \<Rightarrow> bool" where
  "ident_start c = (isalpha c \<or> c = CHR ''_'' \<or> c = CHR ''$'')"

definition ident_char :: "char \<Rightarrow> bool" where
  "ident_char c = (isalnum c \<or> c = CHR ''_'' \<or> c = CHR ''$'')"

definition ident_rx :: rx where
  "ident_rx = Seq (Cls ident_start) (Star ident_char)"

definition async_prefix :: rx where
  "async_prefix = Opt (Seq (Lit ''async'') (Plus isspace))"

definition func_regex :: rx where
  "func_regex =
     Seq async_prefix (Seq (Lit ''function'') (Seq (Star isspace) (Seq (Group 1 (Opt (Lit ''*'')))
       (Seq (Star isspace) (Seq (Opt (Group 2 ident_rx)) (Seq (Star isspace) (Lit ''('')))))))"

definition arrow_regex :: rx where
  "arrow_regex =
     Seq (Alt (Lit ''const'') (Alt (Lit ''let'') (Lit ''var''))) (Seq (Plus isspace)
       (Seq (Group 1 ident_rx) (Seq (Star isspace) (Seq (Lit ''='') (Seq (Star isspace)
         (Seq async_prefix (Seq (Lit ''('') (Seq (Star (\<lambda>c. c \<noteq> CHR '')''))
           (Seq (Lit '')'') (Seq (Star isspace) (Lit ''=>'')))))))))))"

definition class_regex :: rx where
  "class_regex = Seq (Lit ''class'') (Seq (Plus isspace) (Group 1 ident_rx))"

definition import_regex :: rx where
  "import_regex = Seq (Lit ''import'') (Plus isspace)"

definition export_regex :: rx where
  "export_regex =
     Seq (Lit ''export'') (Seq (Plus isspace)
       (Seq (Opt (Seq (Lit ''default'') (Plus isspace))) (Seq async_prefix
         (Alt (Lit ''function'') (Alt (Lit ''class'') (Alt (Lit ''const'')
           (Alt (Lit ''let'') (Lit ''var''))))))))"

definition interface_regex :: rx where
  "interface_regex = Seq (Lit ''interface'') (Seq (Plus isspace) (Group 1 ident_rx))"

definition enum_regex :: rx where
  "enum_regex = Seq (Lit ''enum'') (Seq (Plus isspace) (Group 1 ident_rx))"

definition find_open_brace :: "string \<Rightarrow> nat \<Rightarrow> nat" where
  "find_open_brace source pos = pos + length (takeWhile (\<lambda>c. c \<noteq> CHR ''{'') (drop pos source))"

lemma skip_whitespace_ge: "pos \<le> skip_whitespace source pos"
  by (simp add: skip_whitespace_def)

lemma skip_whitespace_stops:
  assumes "skip_whitespace source pos < length source"
  shows "\<not> isspace (source ! skip_whitespace source pos)"
proof -
  let ?k = "length (takeWhile isspace (drop pos source))"
  have lt: "?k < length (drop pos source)" using assms by (simp add: skip_whitespace_def)
  then have "\<not> isspace (drop pos source ! ?k)" by (rule nth_length_takeWhile)
  moreover have "drop pos source ! ?k = source ! (pos + ?k)" using lt by simp
  ultimately show ?thesis by (simp add: skip_whitespace_def)
qed

lemma skip_to_eol_gt:
  assumes "pos < length source" and "source ! pos \<noteq> CHR 0x0A"
  shows "pos < skip_to_eol source pos"
proof -
  from assms obtain c cs where "drop pos source = c # cs" and "c \<noteq> CHR 0x0A"
    by (metis Cons_nth_drop_Suc)
  then show ?thesis by (simp add: skip_to_eol_def)
qed

lemma skip_comment_gt:
  assumes "pos + 1 < length source" and "source ! pos = CHR ''/''"
    and "source ! (pos + 1) = CHR ''/'' \<or> source ! (pos + 1) = CHR ''*''"
  shows "pos < skip_comment source pos"
  using assms skip_to_eol_gt [of pos source] by (auto simp: skip_comment_def)

lemma find_open_brace_ge: "pos \<le> find_open_brace source pos"
  by (simp add: find_open_brace_def)

lemma regex_search_pos:
  "regex_search export_regex s = Some m \<Longrightarrow> 0 < fst m"
  "regex_search class_regex s = Some m \<Longrightarrow> 0 < fst m"
  "regex_search func_regex s = Some m \<Longrightarrow> 0 < fst m"
  "regex_search arrow_regex s = Some m \<Longrightarrow> 0 < fst m"
  "regex_search interface_regex s = Some m \<Longrightarrow> 0 < fst m"
  "regex_search enum_regex s = Some m \<Longrightarrow> 0 < fst m"
  using regex_search_min_len [of _ s "fst m" "snd m"]
  by (force simp: export_regex_def class_regex_def func_regex_def arrow_regex_def
      interface_regex_def enum_regex_def async_prefix_def ident_rx_def)+


text \<open>
  The main loop of \<open>detect_javascript\<close>, with its state: the position, the scope depth,
  the scope stack and the boundaries found so far. \<open>remaining_str\<close> is the window of at
  most 200 bytes at the position.
\<close>

function js_loop ::
  "string \<Rightarrow> nat \<Rightarrow> int \<Rightarrow> (nat \<times> ChunkType) list \<Rightarrow> SemanticBoundary list
     \<Rightarrow> SemanticBoundary list" where
  "js_loop source pos0 depth scope_stack boundaries =
     (if pos0 < length source
      then (let pos = skip_whitespace source pos0 in
        if length source \<le> pos then boundaries
        else if source ! pos = CHR ''/'' \<and> pos + 1 < length source
                \<and> (source ! (pos + 1) = CHR ''/'' \<or> source ! (pos + 1) = CHR ''*'')
        then js_loop source (skip_comment source pos) depth scope_stack
               (if 50 < skip_comment source pos - pos
                then boundaries @ [make_boundary source pos COMMENT [] depth True]
                else boundaries)
        else if source ! pos = CHR 0x22 \<or> source ! pos = CHR 0x27
        then js_loop source (skip_string source pos (source ! pos)) depth scope_stack boundaries
        else if source ! pos = CHR 0x60
        then js_loop source (skip_template_string source pos) depth scope_stack boundaries
        else (case regex_search import_regex (take 200 (drop pos source)) of
          Some m \<Rightarrow>
            js_loop source (skip_to_eol source pos) depth scope_stack
              (boundaries @ [make_boundary source pos IMPORT [] depth True])
        | None \<Rightarrow>
        (case regex_search export_regex (take 200 (drop pos source)) of
          Some m \<Rightarrow>
            js_loop source (pos + fst m) depth scope_stack
              (boundaries @ [make_boundary source pos EXPORT [] depth True])
        | None \<Rightarrow>
        (case regex_search class_regex (take 200 (drop pos source)) of
          Some m \<Rightarrow>
            (if find_open_brace source (pos + fst m) < length source
             then js_loop source (find_open_brace source (pos + fst m) + 1) (depth + 1)
                    ((find_open_brace source (pos + fst m), CLASS) # scope_stack)
                    (boundaries @ [make_boundary source pos CLASS (submatch (snd m) 1) depth True])
             else js_loop source (find_open_brace source (pos + fst m)) depth scope_stack
                    (boundaries @ [make_boundary source pos CLASS (submatch (snd m) 1) depth True]))
        | None \<Rightarrow>
        (case regex_search func_regex (take 200 (drop pos source)) of
          Some m \<Rightarrow>
            (if find_open_brace source (pos + fst m) < length source
             then js_loop source (find_open_brace source (pos + fst m) + 1) (depth + 1)
                    ((find_open_brace source (pos + fst m), FUNCTION) # scope_stack)
                    (boundaries @ [make_boundary source pos FUNCTION
                       (if submatch (snd m) 2 = [] then ''<anonymous>'' else submatch (snd m) 2)
                       depth True])
             else js_loop source (find_open_brace source (pos + fst m)) depth scope_stack
                    (boundaries @ [make_boundary source pos FUNCTION
                       (if submatch (snd m) 2 = [] then ''<anonymous>'' else submatch (snd m) 2)
                       depth True]))
        | None \<Rightarrow>
        (case regex_search arrow_regex (take 200 (drop pos source)) of
          Some m \<Rightarrow>
            (if skip_whitespace source (pos + fst m) < length source
                \<and> source ! skip_whitespace source (pos + fst m) = CHR ''{''
             then js_loop source (skip_whitespace source (pos + fst m) + 1) (depth + 1)
                    ((skip_whitespace source (pos + fst m), FUNCTION) # scope_stack)
                    (boundaries @ [make_boundary source pos FUNCTION (submatch (snd m) 1) depth True])
             else js_loop source (pos + fst m) depth scope_stack
                    (boundaries @ [make_boundary source pos FUNCTION (submatch (snd m) 1) depth True]))
        | None \<Rightarrow>
            (if source ! pos = CHR ''{''
             then js_loop source (pos + 1) (depth + 1) ((pos, BLOCK) # scope_stack) boundaries
             else if source ! pos = CHR ''}''
             then (case scope_stack of
                     [] \<Rightarrow> js_loop source (pos + 1) depth scope_stack boundaries
                   | (start_pos, t) # stack' \<Rightarrow>
                       js_loop source (pos + 1) (depth - 1) stack'
                         (if t = FUNCTION \<or> t = CLASS
                          then boundaries @ [make_boundary source pos t [] (depth - 1) False]
                          else boundaries))
             else js_loop source (pos + 1) depth scope_stack boundaries)))))))
      else boundaries)"
  by pat_completeness auto
termination js_loop
proof (relation "measure (\<lambda>(source, pos0, depth, scope_stack, boundaries). length source - pos0)",
    goal_cases)
  case 1
  show ?case by simp
next
  case (2 source pos0 depth scope_stack boundaries x)
  then show ?case
    using skip_whitespace_ge [of pos0 source] skip_comment_gt [of x source] by auto
next
  case (3 source pos0 depth scope_stack boundaries x)
  then show ?case using skip_whitespace_ge [of pos0 source] by (auto simp: skip_string_def)
next
  case (4 source pos0 depth scope_stack boundaries x)
  then show ?case using skip_whitespace_ge [of pos0 source] by (auto simp: skip_template_string_def)
next
  case (5 source pos0 depth scope_stack boundaries x)
  then show ?case using skip_whitespace_ge [of pos0 source] by auto
next
  case (6 source pos0 depth scope_stack boundaries x)
  then show ?case using skip_whitespace_ge [of pos0 source] by auto
next
  case (7 source pos0 depth scope_stack boundaries x x21 x22 xa y)
  then show ?case using skip_whitespace_ge [of pos0 source] by auto
next
  case (8 source pos0 depth scope_stack boundaries x)
  then show ?case using skip_whitespace_ge [of pos0 source] by auto
next
  case (9 source pos0 depth scope_stack boundaries x m)
  then show ?case
    using skip_whitespace_ge [of pos0 source] skip_whitespace_ge [of "x + fst m" source] by auto
next
  case (10 source pos0 depth scope_stack boundaries x m)
  then have "0 < fst m" using regex_search_pos(4) by blast
  with 10 show ?case using skip_whitespace_ge [of pos0 source] by auto
next
  case (11 source pos0 depth scope_stack boundaries x m)
  then show ?case
    using skip_whitespace_ge [of pos0 source] find_open_brace_ge [of "x + fst m" source] by auto
next
  case (12 source pos0 depth scope_stack boundaries x m)
  then have "0 < fst m" using regex_search_pos(3) by blast
  with 12 show ?case
    using skip_whitespace_ge [of pos0 source] find_open_brace_ge [of "x + fst m" source] by auto
next
  case (13 source pos0 depth scope_stack boundaries x m)
  then show ?case
    using skip_whitespace_ge [of pos0 source] find_open_brace_ge [of "x + fst m" source] by auto
next
  case (14 source pos0 depth scope_stack boundaries x m)
  then have "0 < fst m" using regex_search_pos(2) by blast
  with 14 show ?case
    using skip_whitespace_ge [of pos0 source] find_open_brace_ge [of "x + fst m" source] by auto
next
  case (15 source pos0 depth scope_stack boundaries x m)
  then have "0 < fst m" using regex_search_pos(1) by blast
  with 15 show ?case using skip_whitespace_ge [of pos0 source] by auto
next
  case (16 source pos0 depth scope_stack boundaries x m)
  then have "x < length source" by simp
  moreover have "source ! x \<noteq> CHR 0x0A"
    using 16 skip_whitespace_stops [of source pos0] by (auto simp: isspace_def byte_val_def)
  ultimately have "x < skip_to_eol source x" by (rule skip_to_eol_gt)
  with 16 show ?case using skip_whitespace_ge [of pos0 source] by auto
qed

declare js_loop.simps [simp del]

text \<open>
  \<open>std::sort\<close> by \<open>byte_offset\<close>; the order of boundaries with equal offsets is left
  open by the source, and is the order of discovery here.
\<close>

definition detect_javascript :: "string \<Rightarrow> SemanticBoundary list" where
  "detect_javascript source = sort_key byte_offset (js_loop source 0 0 [] [])"

text \<open>
  The second pass of \<open>detect_typescript\<close>: at every byte position, with no skipping of
  comments or string literals, the interface and the enum pattern are tried.
\<close>

function ts_loop :: "string \<Rightarrow> nat \<Rightarrow> SemanticBoundary list \<Rightarrow> SemanticBoundary list" where
  "ts_loop source pos boundaries =
     (if pos < length source
      then (case regex_search interface_regex (take 200 (drop pos source)) of
              Some m \<Rightarrow>
                ts_loop source (pos + fst m)
                  (boundaries @ [make_boundary source pos INTERFACE (submatch (snd m) 1) 0 True])
            | None \<Rightarrow>
            (case regex_search enum_regex (take 200 (drop pos source)) of
              Some m \<Rightarrow>
                ts_loop source (pos + fst m)
                  (boundaries @ [make_boundary source pos ENUM (submatch (snd m) 1) 0 True])
            | None \<Rightarrow> ts_loop source (pos + 1) boundaries))
      else boundaries)"
  by pat_completeness auto
termination ts_loop
  by (relation "measure (\<lambda>(source, pos, boundaries). length source - pos)")
    (use regex_search_pos(5,6) in \<open>auto simp: diff_less_mono2\<close>)

declare ts_loop.simps [simp del]

definition detect_typescript :: "string \<Rightarrow> SemanticBoundary list" where
  "detect_typescript source = sort_key byte_offset (ts_loop source 0 (detect_javascript source))"

section \<open>Properties of the boundary detector\<close>

lemmas boundary_eval =
  detect_typescript_def detect_javascript_def ts_loop.simps js_loop.simps
  make_boundary_def offset_to_line_col_def skip_whitespace_def skip_to_eol_def skip_string_def
  skip_template_string_def skip_comment_def find_open_brace_def regex_search_def submatch_def
  interface_regex_def enum_regex_def import_regex_def export_regex_def class_regex_def
  func_regex_def arrow_regex_def async_prefix_def ident_rx_def ident_start_def ident_char_def
  isalnum_def isalpha_def isdigit_def isspace_def byte_val_def Let_def

text \<open>
  Claim C9 says that no declaration boundary lies inside a string literal or a comment,
  the TypeScript patterns included. The source text \<open>"interface Foo"\<close> is one string
  literal (bytes 0 to 14, which \<open>detect_javascript\<close> skips, finding nothing), and
  \<open>detect_typescript\<close> reports an Interface boundary named \<open>Foo\<close> at byte 1. The
  source text \<open>// enum Color\<close> is one line comment, and \<open>detect_typescript\<close> reports an
  Enum boundary named \<open>Color\<close> at byte 3.
\<close>

theorem detect_typescript_inside_literal:
  "detect_typescript (CHR 0x22 # ''interface Foo'' @ [CHR 0x22])
     = [\<lparr>line = 1, column = 2, byte_offset = 1, boundary_type = INTERFACE,
         boundary_name = ''Foo'', scope_depth = 0, is_start = True\<rparr>]
   \<and> skip_string (CHR 0x22 # ''interface Foo'' @ [CHR 0x22]) 0 (CHR 0x22) = 15
   \<and> detect_javascript (CHR 0x22 # ''interface Foo'' @ [CHR 0x22]) = []
   \<and> detect_typescript ''// enum Color''
     = [\<lparr>line = 1, column = 4, byte_offset = 3, boundary_type = ENUM,
         boundary_name = ''Color'', scope_depth = 0, is_start = True\<rparr>]
   \<and> skip_comment ''// enum Color'' 0 = 13"
  by (simp add: boundary_eval)

section \<open>Further properties: boundaries, the serialised form and the error paths\<close>

subsection \<open>The boundary offset lies inside the text\<close>

lemma boundary_run_le: "fst (boundary_run s) \<le> length s"
  unfolding boundary_run_def by (rule scan_run_le)

lemma find_boundary_loop_below:
  "last_good_pos < i + length rest \<Longrightarrow>
   find_boundary_loop rest i token_count last_good_pos target_tokens < i + length rest"
proof (induction rest i token_count last_good_pos target_tokens rule: find_boundary_loop.induct)
  case (1 rest i token_count last_good_pos target_tokens)
  show ?case
  proof (cases "rest \<noteq> [] \<and> token_count < target_tokens")
    case True
    obtain n t where run: "boundary_run rest = (n, t)" by (cases "boundary_run rest")
    have n: "0 < n" "n \<le> length rest"
      using boundary_run_pos [of rest] boundary_run_le [of rest] True run by auto
    from n(1) have "i < i + n + length (drop n rest)" by linarith
    then have "find_boundary_loop (drop n rest) (i + n) (token_count + t) i target_tokens
        < i + n + length (drop n rest)"
      using "1.IH" [OF True run [symmetric]] by simp
    then show ?thesis
      using True run n by (subst find_boundary_loop.simps) simp
  next
    case False
    then show ?thesis using "1.prems" by (subst find_boundary_loop.simps) auto
  qed
qed

text \<open>
  For a non-empty text, \<open>find_token_boundary\<close> returns the start of a run, so an offset
  strictly below the size of the text, whatever the target: it never returns the size
  of the text itself.
\<close>

theorem find_token_boundary_below_size:
  "s \<noteq> [] \<Longrightarrow> find_token_boundary s target_tokens < length s"
  using find_boundary_loop_below [of 0 0 s 0 "unat target_tokens"]
  by (auto simp: find_token_boundary_def find_boundary_def)

theorem find_token_boundary_below_size_witness:
  "''x = 1'' \<noteq> [] \<and> find_token_boundary ''x = 1'' 100 < length ''x = 1''
   \<and> find_token_boundary ''x = 1'' 100 = 4"
  using find_token_boundary_below_size [of "''x = 1''" 100] by (simp add: tokenizer_eval)

subsection \<open>\<open>MerkleTree::deserialize\<close> fails without touching the tree\<close>

text \<open>
  When the blob is shorter than 8 bytes, or its magic number or version is wrong, or
  the tree does not parse, \<open>deserialize\<close> returns false and the tree is the one it was.
\<close>

theorem deserialize_failure_atomic:
  "length data < 8 \<or> read_u32 data \<noteq> 0x4D524B4C \<or> read_u32 (drop 4 data) \<noteq> 1
     \<or> deserialize_node (drop 8 data) = None
   \<Longrightarrow> deserialize data t = (False, t)"
  by (auto simp: deserialize_def)

theorem deserialize_failure_atomic_witness:
  "read_u32 (le32 0x4D524B4D @ le32 1 @ serialize_node (root new_tree)) \<noteq> 0x4D524B4C
   \<and> deserialize (le32 0x4D524B4D @ le32 1 @ serialize_node (root new_tree))
         (add_file ''a'' 1 new_tree) = (False, add_file ''a'' 1 new_tree)"
proof -
  have h: "read_u32 (le32 0x4D524B4D @ le32 1 @ serialize_node (root new_tree)) \<noteq> 0x4D524B4C"
    by (simp add: read_u32_def le32_def)
  show ?thesis
    using h deserialize_failure_atomic [of "le32 0x4D524B4D @ le32 1 @ serialize_node (root new_tree)"
        "add_file ''a'' 1 new_tree"]
    by blast
qed

text \<open>
  \<open>deserialize\<close> has two outcomes only: false with the tree unchanged, or true with a
  new root and the dirty flag cleared.
\<close>

theorem deserialize_outcomes:
  "deserialize data t = (False, t)
   \<or> (\<exists>r. deserialize data t = (True, \<lparr>root = r, dirty = False\<rparr>))"
  by (auto simp: deserialize_def split: option.splits)

text \<open>
  \<open>FileIndex::load\<close> on a file of at least 8 bytes whose magic number or version is
  wrong returns false and leaves the index as it was: these two checks come before
  the entries are cleared.
\<close>

theorem load_bad_header:
  "8 \<le> length file_bytes \<Longrightarrow>
   read_u32 file_bytes \<noteq> 0x4649444E \<or> read_u32 (drop 4 file_bytes) \<noteq> 1 \<Longrightarrow>
   load file_bytes idx = Returned False idx"
  by (auto simp: load_def read_exact_def read_u32_def min_def)

theorem load_bad_header_witness:
  "8 \<le> length (le32 0x4649444E @ le32 2 @ le32 0)
   \<and> read_u32 (drop 4 (le32 0x4649444E @ le32 2 @ le32 0)) \<noteq> 1
   \<and> load (le32 0x4649444E @ le32 2 @ le32 0) (index_add (file_entry ''a'' 1) new_index)
       = Returned False (index_add (file_entry ''a'' 1) new_index)"
proof -
  have h1: "8 \<le> length (le32 0x4649444E @ le32 2 @ le32 0)" by (simp add: le32_def)
  have h2: "read_u32 (drop 4 (le32 0x4649444E @ le32 2 @ le32 0)) \<noteq> 1"
    by (simp add: read_u32_def le32_def)
  show ?thesis
    using h1 h2 load_bad_header [OF h1, of "index_add (file_entry ''a'' 1) new_index"] by blast
qed

subsection \<open>Round trip of the serialised form\<close>

text \<open>
  The little-endian writers and readers are inverse to each other; \<open>bytes_of k v\<close> is
  the first \<open>k\<close> bytes of \<open>v\<close>, low byte first.
\<close>

fun bytes_of :: "nat \<Rightarrow> 'a::len word \<Rightarrow> u8 list" where
  "bytes_of 0 v = []"
| "bytes_of (Suc k) v = ucast v # bytes_of k (drop_bit 8 v)"

lemma read_le_step:
  "(ucast (ucast v :: u8) :: 'a::len word) OR push_bit 8 (take_bit m (drop_bit 8 v)) = take_bit (m + 8) v"
  for v :: "'a::len word"
  apply (rule bit_word_eqI)
  apply (auto simp: bit_simps not_less)
  done

lemma read_le_bytes_of: "(read_le (bytes_of k v) :: 'a::len word) = take_bit (8 * k) v"
  for v :: "'a::len word"
proof (induction k arbitrary: v)
  case 0
  show ?case by simp
next
  case (Suc k)
  have "8 * Suc k = 8 * k + 8" by simp
  then show ?case by (simp only: bytes_of.simps read_le.simps Suc.IH read_le_step)
qed

lemma le32_bytes_of: "le32 w = bytes_of (Suc (Suc (Suc (Suc 0)))) w"
  by (simp add: le32_def drop_bit_drop_bit)

lemma le64_bytes_of:
  "le64 w = bytes_of (Suc (Suc (Suc (Suc (Suc (Suc (Suc (Suc 0)))))))) w"
  by (simp add: le64_def drop_bit_drop_bit)

lemma read_le_le32: "read_le (le32 w) = w"
  unfolding le32_bytes_of read_le_bytes_of by (simp add: take_bit_word_eq_self)

lemma read_le_le64: "read_le (le64 w) = w"
  unfolding le64_bytes_of read_le_bytes_of by (simp add: take_bit_word_eq_self)

lemma length_le32 [simp]: "length (le32 w) = 4"
  by (simp add: le32_def)

lemma length_le64 [simp]: "length (le64 w) = 8"
  by (simp add: le64_def)

lemma read_u32_le32 [simp]: "read_u32 (le32 w @ rest) = w"
  by (simp add: read_u32_def read_le_le32)

lemma read_u64_le64 [simp]: "read_u64 (le64 w @ rest) = w"
  by (simp add: read_u64_def read_le_le64)

lemma unat_of_char: "unat (of_char c :: u8) = (of_char c :: nat)"
proof -
  have "(of_char c :: u8) = word_of_nat (of_char c)" by (simp only: of_nat_of_char)
  then have "unat (of_char c :: u8) = (of_char c :: nat) mod 2 ^ LENGTH(8)"
    by (simp only: unat_of_nat)
  then show ?thesis by simp
qed

lemma char_of_byte [simp]: "char_of (unat (of_char c :: u8)) = c"
  by (simp only: unat_of_char char_of_char)

text \<open>
  A node is serializable when its name and its child count fit the 32-bit length
  fields, its children are in strictly ascending key order (as a \<open>std::map\<close> holds
  them), and every child is stored under its own name and is serializable itself.
\<close>

fun serializable :: "MerkleNode \<Rightarrow> bool" where
  "serializable (MerkleNode n h f cs) =
     (length n < 2 ^ 32 \<and> length cs < 2 ^ 32 \<and> sorted_wrt (<) (map fst cs)
      \<and> (\<forall>kc \<in> set cs. name (snd kc) = fst kc \<and> serializable (snd kc)))"

lemma unat_word_of_nat_32: "k < 2 ^ 32 \<Longrightarrow> unat (word_of_nat k :: 32 word) = k"
  by (simp add: unat_of_nat)

lemma read_header_serialized:
  assumes "length n < 2 ^ 32" and "k < 2 ^ 32"
  shows "read_header (le32 (word_of_nat (length n)) @ map of_char n @ le64 h
            @ [if f then 1 else 0] @ le32 (word_of_nat k) @ rest)
         = Some (n, h, f, k, rest)"
proof -
  have chars: "map ((\<lambda>b. char_of (unat b)) \<circ> (of_char :: char \<Rightarrow> u8)) n = n"
    by (induction n) simp_all
  show ?thesis
    using assms
    by (simp add: read_header_def Let_def unat_word_of_nat_32 chars)
qed

lemma map_assign_append:
  "\<forall>k' \<in> fst ` set m. k' < k \<Longrightarrow> map_assign k v m = m @ [(k, v)]"
  by (induction m) (auto simp: order.asym)

lemma fold_map_assign_sorted:
  "sorted_wrt (<) (map fst (acc @ cs)) \<Longrightarrow>
   fold (\<lambda>kc. map_assign (fst kc) (snd kc)) cs acc = acc @ cs"
proof (induction cs arbitrary: acc)
  case Nil
  show ?case by simp
next
  case (Cons kc cs)
  from Cons.prems have "\<forall>k' \<in> fst ` set acc. k' < fst kc"
    by (auto simp: sorted_wrt_append)
  then have "map_assign (fst kc) (snd kc) acc = acc @ [kc]"
    by (simp add: map_assign_append)
  moreover have "sorted_wrt (<) (map fst ((acc @ [kc]) @ cs))" using Cons.prems by simp
  ultimately show ?case using Cons.IH [of "acc @ [kc]"] by simp
qed

lemma deserialize_children_serialized:
  assumes "\<And>kc rest. kc \<in> set cs \<Longrightarrow>
             deserialize_node (serialize_node (snd kc) @ rest) = Some (snd kc, rest)"
  shows "deserialize_children (length cs) (MerkleNode n h f acc)
           (concat (map (\<lambda>kc. serialize_node (snd kc)) cs) @ rest)
         = Some (MerkleNode n h f
                   (fold (\<lambda>kc. map_assign (name (snd kc)) (snd kc)) cs acc), rest)"
  using assms
proof (induction cs arbitrary: acc)
  case Nil
  show ?case by simp
next
  case (Cons kc cs)
  have "deserialize_node (serialize_node (snd kc)
          @ (concat (map (\<lambda>kc. serialize_node (snd kc)) cs) @ rest))
        = Some (snd kc, concat (map (\<lambda>kc. serialize_node (snd kc)) cs) @ rest)"
    using Cons.prems by simp
  then show ?case using Cons.IH Cons.prems by simp
qed

lemma deserialize_node_serialized:
  "serializable node \<Longrightarrow> deserialize_node (serialize_node node @ rest) = Some (node, rest)"
proof (induction node arbitrary: rest)
  case (MerkleNode n h f cs)
  have children: "deserialize_node (serialize_node (snd kc) @ r) = Some (snd kc, r)"
    if "kc \<in> set cs" for kc r
  proof -
    from that MerkleNode.prems have "serializable (snd kc)" by simp
    moreover have "snd kc \<in> Basic_BNFs.snds kc" by (cases kc) simp
    ultimately show ?thesis using MerkleNode.IH that by blast
  qed
  have names: "fold (\<lambda>kc. map_assign (name (snd kc)) (snd kc)) cs []
      = fold (\<lambda>kc. map_assign (fst kc) (snd kc)) cs []"
    using MerkleNode.prems by (intro fold_cong) auto
  have "fold (\<lambda>kc. map_assign (fst kc) (snd kc)) cs [] = cs"
    using MerkleNode.prems fold_map_assign_sorted [of "[]" cs] by simp
  with names have folded: "fold (\<lambda>kc. map_assign (name (snd kc)) (snd kc)) cs [] = cs" by simp
  have header: "read_header (serialize_node (MerkleNode n h f cs) @ rest)
      = Some (n, h, f, length cs, concat (map (\<lambda>kc. serialize_node (snd kc)) cs) @ rest)"
    using MerkleNode.prems read_header_serialized [of n "length cs" h f] by simp
  show ?case
    by (simp only: deserialize_node.simps header option.case prod.case
        deserialize_children_serialized [OF children] folded)
qed

text \<open>
  \<open>deserialize\<close> on the output of \<open>serialize\<close> succeeds and rebuilds the tree that was
  serialised, stored hashes included, with the dirty flag cleared.
\<close>

theorem serialize_round_trip:
  assumes "serializable (root t)"
  shows "deserialize (serialize t) u = (True, t\<lparr>dirty := False\<rparr>)"
proof -
  have "deserialize_node (serialize_node (root t) @ []) = Some (root t, [])"
    using assms by (rule deserialize_node_serialized)
  then show ?thesis
    by (simp add: deserialize_def serialize_def)
qed

theorem serialize_round_trip_witness:
  "deserialize (serialize (snd (root_hash (add_file ''b/c'' 7 (add_file ''a'' 1 new_tree))))) new_tree
   = (True, (snd (root_hash (add_file ''b/c'' 7 (add_file ''a'' 1 new_tree))))\<lparr>dirty := False\<rparr>)"
proof -
  have h: "serializable (root (snd (root_hash (add_file ''b/c'' 7 (add_file ''a'' 1 new_tree)))))"
    by (simp add: merkle_eval)
  show ?thesis using serialize_round_trip [OF h] by simp
qed

subsection \<open>Every proper prefix of a serialised tree is rejected\<close>

definition header_bytes :: "MerkleNode \<Rightarrow> u8 list" where
  "header_bytes node =
     le32 (word_of_nat (length (name node))) @ map of_char (name node) @ le64 (hash node)
     @ [if is_file node then 1 else 0] @ le32 (word_of_nat (length (children node)))"

lemma serialize_node_header:
  "serialize_node node
     = header_bytes node @ concat (map (\<lambda>kc. serialize_node (snd kc)) (children node))"
  by (cases node) (simp add: header_bytes_def)

lemma length_header_bytes: "length (header_bytes node) = 17 + length (name node)"
  by (simp add: header_bytes_def)

lemma read_header_needs:
  "read_header d = Some x \<Longrightarrow> 17 + unat (read_u32 d) \<le> length d"
  by (auto simp: read_header_def Let_def split: if_splits)

lemma read_header_short: "length d < 4 \<Longrightarrow> read_header d = None"
  by (simp add: read_header_def)

lemma deserialize_short: "length d < 8 \<Longrightarrow> deserialize d u = (False, u)"
  by (simp add: deserialize_def)

lemma read_header_truncated:
  assumes "length (name node) < 2 ^ 32" and "k < length (header_bytes node)"
  shows "read_header (take k (header_bytes node @ rest)) = None"
proof (cases "k < 4")
  case True
  then have "length (take k (header_bytes node @ rest)) < 4" by simp
  then show ?thesis by (rule read_header_short)
next
  case False
  let ?d = "take k (header_bytes node @ rest)"
  have "take 4 ?d = le32 (word_of_nat (length (name node)))"
    using False by (simp add: header_bytes_def take_take min_def)
  then have "read_u32 ?d = word_of_nat (length (name node))"
    by (simp add: read_u32_def read_le_le32)
  then have "unat (read_u32 ?d) = length (name node)"
    using assms(1) by (simp add: unat_word_of_nat_32)
  moreover have "length ?d < 17 + length (name node)"
    using assms(2) by (simp add: length_header_bytes)
  ultimately show ?thesis using read_header_needs [of ?d] by (cases "read_header ?d") auto
qed

lemma deserialize_children_truncated:
  assumes ok: "\<And>kc r. kc \<in> set cs \<Longrightarrow>
             deserialize_node (serialize_node (snd kc) @ r) = Some (snd kc, r)"
    and cut: "\<And>kc k. kc \<in> set cs \<Longrightarrow> k < length (serialize_node (snd kc)) \<Longrightarrow>
             deserialize_node (take k (serialize_node (snd kc))) = None"
    and "m < length (concat (map (\<lambda>kc. serialize_node (snd kc)) cs))"
  shows "deserialize_children (length cs) node0
           (take m (concat (map (\<lambda>kc. serialize_node (snd kc)) cs))) = None"
  using assms
proof (induction cs arbitrary: m node0)
  case Nil
  then show ?case by simp
next
  case (Cons kc cs)
  let ?c = "serialize_node (snd kc)"
  let ?body = "concat (map (\<lambda>kc. serialize_node (snd kc)) cs)"
  show ?case
  proof (cases "m < length ?c")
    case True
    then have "deserialize_node (take m ?c) = None" using Cons.prems(2) by simp
    with True show ?thesis by simp
  next
    case False
    then have split: "take m (?c @ ?body) = ?c @ take (m - length ?c) ?body" by simp
    have first: "deserialize_node (?c @ take (m - length ?c) ?body)
        = Some (snd kc, take (m - length ?c) ?body)"
      using Cons.prems(1) by simp
    have "m - length ?c < length ?body" using Cons.prems(3) False by simp
    then have "deserialize_children (length cs)
        (MerkleNode (name node0) (hash node0) (is_file node0)
           (map_assign (name (snd kc)) (snd kc) (children node0)))
        (take (m - length ?c) ?body) = None"
      using Cons.IH Cons.prems(1,2) by simp
    then show ?thesis using split first by simp
  qed
qed

lemma deserialize_node_truncated:
  "serializable node \<Longrightarrow> k < length (serialize_node node) \<Longrightarrow>
   deserialize_node (take k (serialize_node node)) = None"
proof (induction node arbitrary: k)
  case (MerkleNode n h f cs)
  let ?node = "MerkleNode n h f cs"
  let ?body = "concat (map (\<lambda>kc. serialize_node (snd kc)) cs)"
  have ser: "serialize_node ?node = header_bytes ?node @ ?body"
    using serialize_node_header [of ?node] by simp
  show ?case
  proof (cases "k < length (header_bytes ?node)")
    case True
    then have "read_header (take k (header_bytes ?node @ ?body)) = None"
      using MerkleNode.prems(1) by (intro read_header_truncated) simp_all
    then show ?thesis by (simp only: ser deserialize_node.simps option.case)
  next
    case False
    let ?m = "k - length (header_bytes ?node)"
    have m: "?m < length ?body" using MerkleNode.prems(2) False by (simp only: ser) simp
    have "take k (header_bytes ?node @ ?body) = header_bytes ?node @ take ?m ?body"
      using False by simp
    moreover have "read_header (header_bytes ?node @ take ?m ?body)
        = Some (n, h, f, length cs, take ?m ?body)"
      using MerkleNode.prems(1) read_header_serialized [of n "length cs" h f "take ?m ?body"]
      by (simp add: header_bytes_def)
    moreover have "deserialize_children (length cs) (MerkleNode n h f []) (take ?m ?body) = None"
    proof (rule deserialize_children_truncated [OF _ _ m])
      fix kc r
      assume "kc \<in> set cs"
      then have "serializable (snd kc)" using MerkleNode.prems(1) by simp
      then show "deserialize_node (serialize_node (snd kc) @ r) = Some (snd kc, r)"
        by (rule deserialize_node_serialized)
    next
      fix kc k'
      assume kc: "kc \<in> set cs" and k': "k' < length (serialize_node (snd kc))"
      then have "serializable (snd kc)" using MerkleNode.prems(1) by simp
      moreover have "snd kc \<in> Basic_BNFs.snds kc" by (cases kc) simp
      ultimately show "deserialize_node (take k' (serialize_node (snd kc))) = None"
        using MerkleNode.IH kc k' by blast
    qed
    ultimately show ?thesis by (simp only: ser deserialize_node.simps option.case prod.case)
  qed
qed

text \<open>
  Cut anywhere before its end, the output of \<open>serialize\<close> is refused by \<open>deserialize\<close>,
  which leaves the receiving tree unchanged.
\<close>

theorem deserialize_truncated:
  assumes "serializable (root t)" and "k < length (serialize t)"
  shows "deserialize (take k (serialize t)) u = (False, u)"
proof (cases "k < 8")
  case True
  then have "length (take k (serialize t)) < 8" by simp
  then show ?thesis by (rule deserialize_short)
next
  case False
  let ?s = "serialize_node (root t)"
  have k: "k - 8 < length ?s" using assms(2) False by (simp add: serialize_def)
  have take: "take k (serialize t) = le32 0x4D524B4C @ le32 1 @ take (k - 8) ?s"
    using False by (simp add: serialize_def)
  have "deserialize_node (take (k - 8) ?s) = None"
    using assms(1) k by (rule deserialize_node_truncated)
  then show ?thesis
    unfolding take using False by (simp add: deserialize_def)
qed

theorem deserialize_truncated_witness:
  "length (serialize (add_file ''a'' 1 new_tree)) = 43
   \<and> deserialize (take 42 (serialize (add_file ''a'' 1 new_tree))) new_tree = (False, new_tree)"
proof -
  have h: "serializable (root (add_file ''a'' 1 new_tree))"
    by (simp add: merkle_eval)
  have l: "length (serialize (add_file ''a'' 1 new_tree)) = 43"
    by (simp add: merkle_eval)
  then have k: "42 < length (serialize (add_file ''a'' 1 new_tree))" by simp
  show ?thesis using l deserialize_truncated [OF h k] by simp
qed

end
